theory Spec2Isabelle
  imports Main "HOL-Library.Word" "HOL-Library.Char_ord" "HOL-Library.List_Lexorder"
begin

section \<open>Maglev consistent hashing: the data model\<close>

text \<open>
  The Go package keeps one struct:
  \<^verbatim>\<open>
  type Maglev struct {
      permutations  map[string][]uint64
      lookup        []string
      nodes         []string
      numPartitions uint64
      h1, h2        Hasher
  }
  \<close>
  \<open>uint64\<close> is a 64-bit word (addition and multiplication wrap around), a Go string is
  a byte sequence compared lexicographically byte by byte, which is the order of
  \<open>char list\<close> given by the two order theories imported above. A \<open>Hasher\<close> is a function
  from strings to \<open>uint64\<close>. The map field is \<open>nil\<close> until \<open>generatePermutations\<close> makes it:
  \<open>None\<close> stands for the nil map, reading from which yields the nil slice. \<open>int\<close> is taken
  to be 64 bits wide. The source file holds two revisions of the package one after the
  other; the model follows the second, in which \<open>Add\<close> and \<open>Remove\<close> return errors.
\<close>

type_synonym u64 = "64 word"

record maglev =
  permutations :: "(string \<rightharpoonup> u64 list) option"
  lookup :: "string list"
  nodes :: "string list"
  numPartitions :: u64
  h1 :: "string \<Rightarrow> u64"
  h2 :: "string \<Rightarrow> u64"

text \<open>Run-time panics of the Go code, and the error values it returns with \<open>errors.New\<close>.\<close>

datatype panic = IndexOutOfRange | DivideByZero | NoNodes | NilMapWrite

datatype err = NotPrime | CapacityExceeded | EmptyMembership

subsection \<open>Standard-library functions the package calls\<close>

text \<open>
  \<open>sort.Search(n, f)\<close>: the binary search of Go's standard library,
  \<^verbatim>\<open>
  i, j := 0, n
  for i < j {
      h := int(uint(i+j) >> 1)
      if !f(h) { i = h + 1 } else { j = h }
  }
  return i
  \<close>
  and \<open>sort.SearchStrings(a, x) = sort.Search(len(a), func(i) { return a[i] >= x })\<close>.
\<close>

function search :: "nat \<Rightarrow> nat \<Rightarrow> (nat \<Rightarrow> bool) \<Rightarrow> nat" where
  "search i j f =
     (if i < j then
        (let h = (i + j) div 2 in
         if \<not> f h then search (h + 1) j f else search i h f)
      else i)"
  by pat_completeness auto
termination
  by (relation "measure (\<lambda>(i, j, f). j - i)") auto

definition SearchStrings :: "string list \<Rightarrow> string \<Rightarrow> nat" where
  "SearchStrings a x = search 0 (length a) (\<lambda>i. a ! i \<ge> x)"

text \<open>
  \<open>big.Int.ProbablyPrime(0)\<close> is exact for arguments below \<open>2^64\<close>; it is modelled by
  the primality predicate itself, written with a bounded quantifier so that it evaluates.
\<close>

definition is_prime :: "nat \<Rightarrow> bool" where
  "is_prime p \<longleftrightarrow> 1 < p \<and> (\<forall>d \<in> {2..<p}. \<not> d dvd p)"

subsection \<open>Permutation generator\<close>

text \<open>
  \<^verbatim>\<open>
  offset := m.h1.Hash(node) % m.numPartitions
  skip := m.h2.Hash(node)%(m.numPartitions-1) + 1
  permutation := make([]uint64, m.numPartitions)
  for i := uint64(0); i < m.numPartitions; i++ {
      permutation[i] = (offset + i*skip) % m.numPartitions
  }
  \<close>
  Both remainders panic on a zero divisor; \<open>numPartitions - 1\<close>, \<open>i * skip\<close> and the
  sum are computed on 64-bit words. The allocation is taken to succeed.
\<close>

definition generatePermutationsForNode :: "maglev \<Rightarrow> string \<Rightarrow> panic + u64 list" where
  "generatePermutationsForNode m node =
     (if numPartitions m = 0 then Inl DivideByZero
      else let offset = h1 m node mod numPartitions m in
        if numPartitions m - 1 = 0 then Inl DivideByZero
        else let skip = h2 m node mod (numPartitions m - 1) + 1 in
          Inr (map (\<lambda>i. (offset + of_nat i * skip) mod numPartitions m)
                 [0..<unat (numPartitions m)]))"

text \<open>
  \<open>generatePermutations\<close>: a fresh map, one entry per node in slice order.
\<close>

fun generatePermutations_loop ::
  "maglev \<Rightarrow> (string \<rightharpoonup> u64 list) \<Rightarrow> string list \<Rightarrow> panic + (string \<rightharpoonup> u64 list)" where
  "generatePermutations_loop m pm [] = Inr pm"
| "generatePermutations_loop m pm (node # rest) =
     (case generatePermutationsForNode m node of
        Inl e \<Rightarrow> Inl e
      | Inr perm \<Rightarrow> generatePermutations_loop m (pm(node \<mapsto> perm)) rest)"

definition generatePermutations :: "maglev \<Rightarrow> panic + maglev" where
  "generatePermutations m =
     (case generatePermutations_loop m Map.empty (nodes m) of
        Inl e \<Rightarrow> Inl e
      | Inr pm \<Rightarrow> Inr (m\<lparr>permutations := Some pm\<rparr>))"

subsection \<open>Lookup table builder\<close>

text \<open>
  \<open>m.permutations[ID]\<close>: a read from a nil map or of a missing key gives the nil slice.
\<close>

definition perm_of :: "maglev \<Rightarrow> string \<Rightarrow> u64 list" where
  "perm_of m ID =
     (case permutations m of
        None \<Rightarrow> []
      | Some pm \<Rightarrow> (case pm ID of None \<Rightarrow> [] | Some perm \<Rightarrow> perm))"

text \<open>The local state of \<open>populateLookup\<close>: the new table, the cursors and the fill counter.\<close>

record fill =
  table :: "string list"
  nxt :: "nat list"
  filled :: u64

text \<open>
  The cursor search of one node,
  \<^verbatim>\<open>
  c := m.permutations[ID][next[i]]
  for m.lookup[c] != "" {
      next[i]++
      c = m.permutations[ID][next[i]]
  }
  \<close>
  returns the final cursor \<open>k\<close> (then \<open>c\<close> is the permutation's entry at \<open>k\<close>); every index
  expression panics out of range.
\<close>

function find_slot :: "u64 list \<Rightarrow> string list \<Rightarrow> nat \<Rightarrow> panic + nat" where
  "find_slot perm lk k =
     (if \<not> k < length perm then Inl IndexOutOfRange
      else if \<not> unat (perm ! k) < length lk then Inl IndexOutOfRange
      else if lk ! unat (perm ! k) \<noteq> [] then find_slot perm lk (k + 1)
      else Inr k)"
  by pat_completeness auto
termination
  by (relation "measure (\<lambda>(perm, lk, k). length perm - k)") auto

text \<open>
  One pass of the body of \<open>for i, ID := range m.nodes\<close>, up to and including \<open>n++\<close>.
\<close>

definition turn :: "maglev \<Rightarrow> nat \<Rightarrow> string \<Rightarrow> fill \<Rightarrow> panic + fill" where
  "turn m i ID s =
     (if \<not> i < length (nxt s) then Inl IndexOutOfRange
      else case find_slot (perm_of m ID) (table s) (nxt s ! i) of
        Inl e \<Rightarrow> Inl e
      | Inr k \<Rightarrow>
          Inr \<lparr>table = (table s)[unat (perm_of m ID ! k) := ID],
               nxt = (nxt s)[i := k + 1],
               filled = filled s + 1\<rparr>)"

text \<open>
  The \<open>range\<close> loop over the nodes, from position \<open>i\<close> on; \<open>True\<close> in the result says that
  \<open>n == m.numPartitions\<close> held after a turn and the function returned.
\<close>

fun range_nodes :: "maglev \<Rightarrow> nat \<Rightarrow> string list \<Rightarrow> fill \<Rightarrow> panic + (bool \<times> fill)" where
  "range_nodes m i [] s = Inr (False, s)"
| "range_nodes m i (ID # rest) s =
     (case turn m i ID s of
        Inl e \<Rightarrow> Inl e
      | Inr s' \<Rightarrow>
          if filled s' = numPartitions m then Inr (True, s')
          else range_nodes m (i + 1) rest s')"

text \<open>The enclosing \<open>for { ... }\<close>: it has no exit of its own, so not returning is \<open>None\<close>.\<close>

partial_function (option) fill_loop :: "maglev \<Rightarrow> fill \<Rightarrow> (panic + fill) option" where
  "fill_loop m s =
     (case range_nodes m 0 (nodes m) s of
        Inl e \<Rightarrow> Some (Inl e)
      | Inr r \<Rightarrow> if fst r then Some (Inr (snd r)) else fill_loop m (snd r))"

declare fill_loop.simps [code]

definition populateLookup :: "maglev \<Rightarrow> (panic + maglev) option" where
  "populateLookup m =
     (if length (nodes m) = 0 then Some (Inl NoNodes)
      else case fill_loop m \<lparr>table = replicate (unat (numPartitions m)) [],
                             nxt = replicate (length (nodes m)) 0,
                             filled = 0\<rparr> of
        None \<Rightarrow> None
      | Some (Inl e) \<Rightarrow> Some (Inl e)
      | Some (Inr s) \<Rightarrow> Some (Inr (m\<lparr>lookup := table s\<rparr>)))"

subsection \<open>Construction, queries and membership\<close>

text \<open>
  \<open>NewMaglev\<close>: the primality check, a sorted copy of the node list (not de-duplicated),
  and, when the list is not empty, the permutations and the table. The outer sum is the
  panic, the inner one the returned error.
\<close>

definition NewMaglev ::
  "string list \<Rightarrow> u64 \<Rightarrow> (string \<Rightarrow> u64) \<Rightarrow> (string \<Rightarrow> u64) \<Rightarrow> (panic + (err + maglev)) option" where
  "NewMaglev ns p hash1 hash2 =
     (if \<not> is_prime (unat p) then Some (Inr (Inl NotPrime))
      else let m = \<lparr>permutations = None, lookup = [], nodes = sort ns,
                    numPartitions = p, h1 = hash1, h2 = hash2\<rparr> in
        if length ns > 0 then
          (case generatePermutations m of
             Inl e \<Rightarrow> Some (Inl e)
           | Inr m1 \<Rightarrow>
               (case populateLookup m1 of
                  None \<Rightarrow> None
                | Some (Inl e) \<Rightarrow> Some (Inl e)
                | Some (Inr m2) \<Rightarrow> Some (Inr (Inr m2))))
        else Some (Inr (Inr m)))"

text \<open>\<open>PartitionID\<close>: \<open>int(key % uint64(m.numPartitions))\<close>, a panic when the divisor is zero.\<close>

definition PartitionID :: "maglev \<Rightarrow> u64 \<Rightarrow> panic + int" where
  "PartitionID m key =
     (if numPartitions m = 0 then Inl DivideByZero
      else Inr (sint (key mod numPartitions m)))"

definition Lookup :: "maglev \<Rightarrow> u64 \<Rightarrow> panic + string" where
  "Lookup m key =
     (case PartitionID m key of
        Inl e \<Rightarrow> Inl e
      | Inr partitionID \<Rightarrow>
          if 0 \<le> partitionID \<and> nat partitionID < length (lookup m)
          then Inr (lookup m ! nat partitionID)
          else Inl IndexOutOfRange)"

text \<open>
  \<open>Contains\<close>: \<open>if pos := sort.SearchStrings(m.nodes, node); m.nodes[pos] == node\<close>, the
  index expression is not guarded.
\<close>

definition Contains :: "maglev \<Rightarrow> string \<Rightarrow> panic + bool" where
  "Contains m node =
     (let pos = SearchStrings (nodes m) node in
      if \<not> pos < length (nodes m) then Inl IndexOutOfRange
      else Inr (nodes m ! pos = node))"

text \<open>
  The candidate loop of \<open>Add\<close>, with the counter \<open>n\<close>:
  \<^verbatim>\<open>
  if pos := sort.SearchStrings(m.nodes, node); m.nodes[pos] != node {
      m.nodes = append(m.nodes[:pos], append([]string{node}, m.nodes[pos:]...)...)
      m.permutations[node] = m.generatePermutationsForNode(node)
      n++
  }
  \<close>
  The right-hand side of the map assignment is evaluated before the assignment, which
  panics on a nil map.
\<close>

fun add_loop :: "maglev \<Rightarrow> nat \<Rightarrow> string list \<Rightarrow> panic + (maglev \<times> nat)" where
  "add_loop m n [] = Inr (m, n)"
| "add_loop m n (node # rest) =
     (let pos = SearchStrings (nodes m) node in
      if \<not> pos < length (nodes m) then Inl IndexOutOfRange
      else if nodes m ! pos \<noteq> node then
        (let m1 = m\<lparr>nodes := take pos (nodes m) @ [node] @ drop pos (nodes m)\<rparr> in
         case generatePermutationsForNode m1 node of
           Inl e \<Rightarrow> Inl e
         | Inr perm \<Rightarrow>
             (case permutations m1 of
                None \<Rightarrow> Inl NilMapWrite
              | Some pm \<Rightarrow>
                  add_loop (m1\<lparr>permutations := Some (pm(node \<mapsto> perm))\<rparr>) (n + 1) rest))
      else add_loop m n rest)"

definition Add :: "maglev \<Rightarrow> string list \<Rightarrow> (panic + (maglev \<times> nat \<times> err option)) option" where
  "Add m ns =
     (case add_loop m 0 ns of
        Inl e \<Rightarrow> Some (Inl e)
      | Inr (m1, n) \<Rightarrow>
          (case populateLookup m1 of
             None \<Rightarrow> None
           | Some (Inl e) \<Rightarrow> Some (Inl e)
           | Some (Inr m2) \<Rightarrow>
               if unat (numPartitions m2) < length (nodes m2)
               then Some (Inr (m2, n, Some CapacityExceeded))
               else Some (Inr (m2, n, None))))"

text \<open>
  The candidate loop of \<open>Remove\<close>:
  \<^verbatim>\<open>
  if pos := sort.SearchStrings(m.nodes, node); m.nodes[pos] == node {
      m.nodes = append(m.nodes[:pos], m.nodes[pos+1:]...)
      delete(m.permutations, node)
      n++
  }
  \<close>
  \<open>delete\<close> on a nil map does nothing.
\<close>

fun remove_loop :: "maglev \<Rightarrow> nat \<Rightarrow> string list \<Rightarrow> panic + (maglev \<times> nat)" where
  "remove_loop m n [] = Inr (m, n)"
| "remove_loop m n (node # rest) =
     (let pos = SearchStrings (nodes m) node in
      if \<not> pos < length (nodes m) then Inl IndexOutOfRange
      else if nodes m ! pos = node then
        remove_loop
          (m\<lparr>nodes := take pos (nodes m) @ drop (pos + 1) (nodes m),
             permutations := map_option (\<lambda>pm. pm(node := None)) (permutations m)\<rparr>)
          (n + 1) rest
      else remove_loop m n rest)"

definition Remove :: "maglev \<Rightarrow> string list \<Rightarrow> (panic + (maglev \<times> nat \<times> err option)) option" where
  "Remove m ns =
     (case remove_loop m 0 ns of
        Inl e \<Rightarrow> Some (Inl e)
      | Inr (m1, n) \<Rightarrow>
          if length (nodes m1) = 0 then Some (Inr (m1, n, Some EmptyMembership))
          else
            (case populateLookup m1 of
               None \<Rightarrow> None
             | Some (Inl e) \<Rightarrow> Some (Inl e)
             | Some (Inr m2) \<Rightarrow> Some (Inr (m2, n, None))))"

definition Size :: "maglev \<Rightarrow> nat" where
  "Size m = length (nodes m)"

definition Partitions :: "maglev \<Rightarrow> u64" where
  "Partitions m = numPartitions m"

section \<open>Specification predicates\<close>

text \<open>
  A cached permutation is a true permutation of the partition indices: it has one entry
  per partition, no entry twice, and every entry is a partition index.
\<close>

definition perm_ok :: "nat \<Rightarrow> u64 list \<Rightarrow> bool" where
  "perm_ok p perm \<longleftrightarrow> length perm = p \<and> distinct perm \<and> (\<forall>c \<in> set perm. unat c < p)"

text \<open>The data-model invariant on the permutation cache: every node's entry is a permutation.\<close>

definition perms_ok :: "maglev \<Rightarrow> bool" where
  "perms_ok m \<longleftrightarrow>
     (\<forall>ID \<in> set (nodes m). perm_ok (unat (numPartitions m)) (perm_of m ID))"

text \<open>
  What holds of every instance built by \<open>NewMaglev\<close> from distinct node names over at most
  \<open>2^32\<close> partitions, and after every \<open>Add\<close> and \<open>Remove\<close> that returns: the partition
  count is prime, the node list is sorted and duplicate-free, and the permutation cache
  is as above.
\<close>

definition instance_ok :: "maglev \<Rightarrow> bool" where
  "instance_ok m \<longleftrightarrow>
     is_prime (unat (numPartitions m)) \<and> unat (numPartitions m) \<le> 2 ^ 32 \<and>
     sorted (nodes m) \<and> distinct (nodes m) \<and> perms_ok m"

text \<open>
  The number of turns a node identifier gets among the first \<open>t\<close> turns of the round robin
  (turn \<open>t'\<close> belongs to the node at position \<open>t' mod N\<close>).
\<close>

definition steps_by :: "maglev \<Rightarrow> string \<Rightarrow> nat \<Rightarrow> nat" where
  "steps_by m ID t =
     length (filter (\<lambda>t'. nodes m ! (t' mod length (nodes m)) = ID) [0..<t])"

text \<open>
  Invariants of the fill loop. \<open>ahead\<close> counts the occupied slots a cursor still has in
  front of it; for every node the cursor plus that count never exceeds the fill counter,
  which is why a cursor never runs off its permutation while the counter is below
  \<open>numPartitions\<close>. \<open>counts_ok\<close> ties the occurrences of each identifier in the table
  to its turns.
\<close>

definition ahead :: "string list \<Rightarrow> u64 list \<Rightarrow> nat \<Rightarrow> nat" where
  "ahead lk perm k = length (filter (\<lambda>c. lk ! unat c \<noteq> []) (drop k perm))"

definition cursors_ok :: "maglev \<Rightarrow> fill \<Rightarrow> bool" where
  "cursors_ok m s \<longleftrightarrow>
     length (table s) = unat (numPartitions m) \<and> length (nxt s) = length (nodes m) \<and>
     (\<forall>i < length (nodes m).
        nxt s ! i + ahead (table s) (perm_of m (nodes m ! i)) (nxt s ! i) \<le> unat (filled s))"

definition counts_ok :: "maglev \<Rightarrow> fill \<Rightarrow> bool" where
  "counts_ok m s \<longleftrightarrow>
     set (table s) \<subseteq> insert [] (set (nodes m)) \<and>
     (\<forall>ID. count_list (table s) ID =
        (if ID = [] then unat (numPartitions m) + steps_by m [] (unat (filled s)) - unat (filled s)
         else steps_by m ID (unat (filled s))))"

definition fill_inv :: "maglev \<Rightarrow> fill \<Rightarrow> bool" where
  "fill_inv m s \<longleftrightarrow> cursors_ok m s \<and> counts_ok m s"

section \<open>Concrete instances\<close>

text \<open>
  Two hashers and a three-node instance over seven partitions, as \<open>NewMaglev\<close> builds it
  from the node list \<open>b, a, c\<close>; they serve to evaluate the model on concrete inputs.
\<close>

definition hash_sum :: "string \<Rightarrow> u64" where
  "hash_sum s = of_nat (sum_list (map of_char s))"

definition hash_mix :: "string \<Rightarrow> u64" where
  "hash_mix s = of_nat (length s + 3 * sum_list (map of_char s))"

definition inst_abc :: maglev where
  "inst_abc =
     \<lparr>permutations = Some (Map.empty(''a'' \<mapsto> [6, 4, 2, 0, 5, 3, 1],
                                   ''b'' \<mapsto> [0, 2, 4, 6, 1, 3, 5],
                                   ''c'' \<mapsto> [1, 6, 4, 2, 0, 5, 3])),
      lookup = [''b'', ''c'', ''b'', ''a'', ''a'', ''c'', ''a''],
      nodes = [''a'', ''b'', ''c''],
      numPartitions = 7, h1 = hash_sum, h2 = hash_mix\<rparr>"

text \<open>
  A one-node instance, and the instance \<open>NewMaglev\<close> builds over three partitions from the
  empty string and \<open>c\<close>.
\<close>

definition inst_a :: maglev where
  "inst_a =
     \<lparr>permutations = Some (Map.empty(''a'' \<mapsto> [6, 4, 2, 0, 5, 3, 1])),
      lookup = [''a'', ''a'', ''a'', ''a'', ''a'', ''a'', ''a''],
      nodes = [''a''],
      numPartitions = 7, h1 = hash_sum, h2 = hash_mix\<rparr>"

definition inst_blank :: maglev where
  "inst_blank =
     \<lparr>permutations = Some (Map.empty([] \<mapsto> [0, 1, 2], ''c'' \<mapsto> [0, 1, 2])),
      lookup = [''c'', [], []],
      nodes = [[], ''c''],
      numPartitions = 3, h1 = hash_sum, h2 = hash_mix\<rparr>"

text \<open>An instance at capacity: two nodes over two partitions.\<close>

definition inst_full :: maglev where
  "inst_full =
     \<lparr>permutations = Some (Map.empty(''b'' \<mapsto> [0, 1], ''c'' \<mapsto> [1, 0])),
      lookup = [''b'', ''c''],
      nodes = [''b'', ''c''],
      numPartitions = 2, h1 = hash_sum, h2 = hash_mix\<rparr>"

text \<open>
  Two instances with large prime partition counts. In \<open>inst_wrap\<close> the count is just above
  \<open>2^32\<close> and the hashers are constant; in \<open>inst_huge\<close> it is above \<open>2^63\<close> and the
  node list is empty, so that no table is allocated.
\<close>

definition inst_wrap :: maglev where
  "inst_wrap =
     \<lparr>permutations = None, lookup = [], nodes = [],
      numPartitions = 4630511617, h1 = (\<lambda>node. 0), h2 = (\<lambda>node. 4630511615)\<rparr>"

definition inst_huge :: maglev where
  "inst_huge =
     \<lparr>permutations = None, lookup = [], nodes = [],
      numPartitions = 9322451228656926721, h1 = hash_sum, h2 = hash_mix\<rparr>"

text \<open>
  Modular exponentiation by repeated squaring; it only serves to certify that the two
  large partition counts are prime.
\<close>

fun powmod :: "nat \<Rightarrow> nat \<Rightarrow> nat \<Rightarrow> nat" where
  "powmod a e n =
     (if e = 0 then 1 mod n
      else let h = powmod a (e div 2) n; s = h * h mod n
           in if even e then s else s * a mod n)"

section \<open>Binary search\<close>

text \<open>
  The search stays between its bounds; the index it returns satisfies the predicate unless
  it is the upper bound; where the predicate fails everywhere the result is the upper
  bound; and for a predicate that is monotone on the slice, it fails below the result.
\<close>

lemma search_range: "i \<le> j \<Longrightarrow> i \<le> search i j f \<and> search i j f \<le> j"
proof (induction i j f rule: search.induct)
  case (1 i j f)
  show ?case
  proof (cases "i < j")
    case False
    with "1.prems" show ?thesis by (simp add: search.simps [of i j f])
  next
    case True
    define h where "h = (i + j) div 2"
    have hb: "i \<le> h" "h < j" using True by (auto simp: h_def)
    show ?thesis
    proof (cases "f h")
      case True
      have "i \<le> search i h f \<and> search i h f \<le> h"
        using "1.IH"(2) [of h] \<open>i < j\<close> True hb by (simp add: h_def)
      moreover have "search i j f = search i h f"
        using \<open>i < j\<close> True by (subst search.simps) (simp add: h_def Let_def)
      ultimately show ?thesis using hb by simp
    next
      case False
      have "h + 1 \<le> search (h + 1) j f \<and> search (h + 1) j f \<le> j"
        using "1.IH"(1) [of h] \<open>i < j\<close> False hb by (simp add: h_def)
      moreover have "search i j f = search (h + 1) j f"
        using \<open>i < j\<close> False by (subst search.simps) (simp add: h_def Let_def)
      ultimately show ?thesis using hb by simp
    qed
  qed
qed

lemma search_hit: "i \<le> j \<Longrightarrow> j < n \<longrightarrow> f j \<Longrightarrow> search i j f < n \<longrightarrow> f (search i j f)"
proof (induction i j f rule: search.induct)
  case (1 i j f)
  show ?case
  proof (cases "i < j")
    case False
    with "1.prems" show ?thesis by (simp add: search.simps [of i j f])
  next
    case True
    define h where "h = (i + j) div 2"
    have hb: "i \<le> h" "h < j" using True by (auto simp: h_def)
    show ?thesis
    proof (cases "f h")
      case True
      have "search i h f < n \<longrightarrow> f (search i h f)"
        using "1.IH"(2) [of h] \<open>i < j\<close> True hb by (simp add: h_def)
      moreover have "search i j f = search i h f"
        using \<open>i < j\<close> True by (subst search.simps) (simp add: h_def Let_def)
      ultimately show ?thesis by simp
    next
      case False
      have "search (h + 1) j f < n \<longrightarrow> f (search (h + 1) j f)"
        using "1.IH"(1) [of h] \<open>i < j\<close> False hb "1.prems" by (simp add: h_def)
      moreover have "search i j f = search (h + 1) j f"
        using \<open>i < j\<close> False by (subst search.simps) (simp add: h_def Let_def)
      ultimately show ?thesis by simp
    qed
  qed
qed

lemma search_all_false: "i \<le> j \<Longrightarrow> \<forall>k<j. \<not> f k \<Longrightarrow> search i j f = j"
proof (induction i j f rule: search.induct)
  case (1 i j f)
  show ?case
  proof (cases "i < j")
    case False
    with "1.prems" show ?thesis by (simp add: search.simps [of i j f])
  next
    case True
    define h where "h = (i + j) div 2"
    have hb: "i \<le> h" "h < j" using True by (auto simp: h_def)
    have nf: "\<not> f h" using "1.prems" hb by simp
    have "search (h + 1) j f = j"
      using "1.IH"(1) [of h] \<open>i < j\<close> nf hb "1.prems" by (simp add: h_def)
    moreover have "search i j f = search (h + 1) j f"
      using \<open>i < j\<close> nf by (subst search.simps) (simp add: h_def Let_def)
    ultimately show ?thesis by simp
  qed
qed

lemma search_below:
  assumes mono: "\<And>k k'. k \<le> k' \<Longrightarrow> k' < n \<Longrightarrow> f k \<Longrightarrow> f k'"
  shows "i \<le> j \<Longrightarrow> j \<le> n \<Longrightarrow> (\<And>k. k < i \<Longrightarrow> \<not> f k) \<Longrightarrow> k < search i j f \<Longrightarrow> \<not> f k"
proof (induction "j - i" arbitrary: i j rule: less_induct)
  case less
  show ?case
  proof (cases "i < j")
    case False
    then have "search i j f = i" by (simp add: search.simps [of i j f])
    with less.prems show ?thesis by simp
  next
    case True
    define h where "h = (i + j) div 2"
    have hb: "i \<le> h" "h < j" using True by (auto simp: h_def)
    show ?thesis
    proof (cases "f h")
      case True
      have eq: "search i j f = search i h f"
        using \<open>i < j\<close> True by (subst search.simps) (simp add: h_def Let_def)
      have "h - i < j - i" using hb by simp
      moreover have "h \<le> n" using hb less.prems(2) by simp
      moreover have "k < search i h f" using less.prems(4) eq by simp
      ultimately show ?thesis using less.hyps [of h i] hb(1) less.prems(3) by blast
    next
      case False
      have eq: "search i j f = search (h + 1) j f"
        using \<open>i < j\<close> False by (subst search.simps) (simp add: h_def Let_def)
      have below: "\<not> f k'" if "k' < h + 1" for k'
      proof
        assume "f k'"
        moreover have "k' \<le> h" using that by simp
        moreover have "h < n" using hb less.prems(2) by simp
        ultimately have "f h" using mono by blast
        with False show False by simp
      qed
      have "j - (h + 1) < j - i" using hb by simp
      moreover have "h + 1 \<le> j" using hb by simp
      moreover have "k < search (h + 1) j f" using less.prems(4) eq by simp
      ultimately show ?thesis using less.hyps [of j "h + 1"] less.prems(2) below by blast
    qed
  qed
qed

text \<open>
  For a sorted slice \<open>SearchStrings\<close> is the position of the first element not below the
  probe, so the probe is a member exactly when it stands at that position. When the probe
  is above every element the position is the length of the slice, sorted or not.
\<close>

lemma SearchStrings_le: "SearchStrings a x \<le> length a"
  using search_range [of 0 "length a"] by (simp add: SearchStrings_def)

lemma SearchStrings_ge: "SearchStrings a x < length a \<Longrightarrow> x \<le> a ! SearchStrings a x"
  using search_hit [of 0 "length a" "length a" "\<lambda>i. x \<le> a ! i"]
  by (simp add: SearchStrings_def)

lemma SearchStrings_after_all: "\<forall>y \<in> set a. y < x \<Longrightarrow> SearchStrings a x = length a"
  unfolding SearchStrings_def
  by (rule search_all_false) (auto simp: not_le)

lemma SearchStrings_less:
  assumes s: "sorted a" and k: "k < SearchStrings a x"
  shows "a ! k < x"
proof -
  have "\<not> x \<le> a ! k"
  proof (rule search_below [where n = "length a" and i = 0 and j = "length a"
        and f = "\<lambda>i. x \<le> a ! i"])
    fix k k' assume h: "k \<le> k'" "k' < length a" "x \<le> a ! k"
    then have "a ! k \<le> a ! k'" using s sorted_nth_mono by blast
    with h show "x \<le> a ! k'" by (meson order_trans)
  next
    show "k < search 0 (length a) (\<lambda>i. x \<le> a ! i)" using k by (simp add: SearchStrings_def)
  qed simp_all
  then show ?thesis by (simp add: not_le)
qed

lemma SearchStrings_found:
  assumes "sorted a"
  shows "(SearchStrings a x < length a \<and> a ! SearchStrings a x = x) \<longleftrightarrow> x \<in> set a"
proof
  assume "SearchStrings a x < length a \<and> a ! SearchStrings a x = x"
  then show "x \<in> set a" by (metis nth_mem)
next
  assume "x \<in> set a"
  then obtain k where k: "k < length a" "a ! k = x" by (auto simp: in_set_conv_nth)
  have "\<not> k < SearchStrings a x" using SearchStrings_less [OF assms, of k x] k by auto
  then have le: "SearchStrings a x \<le> k" by simp
  then have lt: "SearchStrings a x < length a" using k by simp
  have "a ! SearchStrings a x \<le> a ! k" using assms le k(1) sorted_nth_mono by blast
  moreover have "x \<le> a ! SearchStrings a x" using SearchStrings_ge [OF lt] .
  ultimately show "SearchStrings a x < length a \<and> a ! SearchStrings a x = x" using lt k by auto
qed

section \<open>The fill loop\<close>

text \<open>
  The cursor search succeeds whenever the cursor and the occupied slots in front of
  it together stay below the length of the permutation: it then stops at a free slot
  without changing that sum.
\<close>

lemma ahead_step:
  "k < length perm \<Longrightarrow>
   ahead lk perm k = (if lk ! unat (perm ! k) \<noteq> [] then 1 else 0) + ahead lk perm (k + 1)"
  by (simp add: ahead_def Cons_nth_drop_Suc [symmetric])

lemma find_slot_ok:
  "k + ahead lk perm k < length perm \<Longrightarrow> \<forall>c \<in> set perm. unat c < length lk \<Longrightarrow>
   \<exists>k'. find_slot perm lk k = Inr k' \<and> k \<le> k' \<and> k' < length perm
     \<and> lk ! unat (perm ! k') = [] \<and> k' + ahead lk perm k' = k + ahead lk perm k"
proof (induction perm lk k rule: find_slot.induct)
  case (1 perm lk k)
  have kl: "k < length perm" using "1.prems"(1) by simp
  then have cl: "unat (perm ! k) < length lk" using "1.prems"(2) by simp
  show ?case
  proof (cases "lk ! unat (perm ! k) \<noteq> []")
    case True
    have a: "ahead lk perm k = 1 + ahead lk perm (k + 1)"
      using ahead_step [OF kl, of lk] True by simp
    then have "k + 1 + ahead lk perm (k + 1) < length perm" using "1.prems"(1) by simp
    then obtain k' where k': "find_slot perm lk (k + 1) = Inr k'" "k + 1 \<le> k'"
      "k' < length perm" "lk ! unat (perm ! k') = []"
      "k' + ahead lk perm k' = k + 1 + ahead lk perm (k + 1)"
      using "1.IH" kl cl True "1.prems"(2) by blast
    have "find_slot perm lk k = find_slot perm lk (k + 1)"
      using kl cl True by (subst find_slot.simps) simp
    then show ?thesis using k' a by auto
  next
    case False
    have "find_slot perm lk k = Inr k"
      using kl cl False by (subst find_slot.simps) simp
    then show ?thesis using kl False by simp
  qed
qed

text \<open>
  Writing one slot adds at most one occupied slot in front of any cursor, and none in
  front of the cursor that has just passed it, because a permutation lists every slot once.
\<close>

lemma ahead_update_le:
  assumes "distinct perm"
  shows "ahead (lk[c := ID]) perm k \<le> ahead lk perm k + 1"
proof -
  have "length (filter (\<lambda>d. (lk[c := ID]) ! unat d \<noteq> []) xs)
          \<le> length (filter (\<lambda>d. lk ! unat d \<noteq> []) xs) + (if c \<in> unat ` set xs then 1 else 0)"
    if "distinct xs" for xs :: "u64 list"
    using that
  proof (induction xs)
    case Nil
    then show ?case by simp
  next
    case (Cons d xs)
    show ?case
    proof (cases "unat d = c")
      case True
      have "c \<notin> unat ` set xs"
      proof
        assume "c \<in> unat ` set xs"
        then obtain d' where "d' \<in> set xs" "unat d' = unat d" using True by auto
        then have "d \<in> set xs" using word_unat_eq_iff [of d' d] by simp
        with Cons.prems show False by simp
      qed
      then have ne: "\<forall>d' \<in> set xs. c \<noteq> unat d'" by blast
      have "filter (\<lambda>d. (lk[c := ID]) ! unat d \<noteq> []) xs = filter (\<lambda>d. lk ! unat d \<noteq> []) xs"
        by (rule filter_cong [OF refl]) (use ne in simp)
      then show ?thesis using True \<open>c \<notin> unat ` set xs\<close> by simp
    next
      case False
      then have "(lk[c := ID]) ! unat d = lk ! unat d" by simp
      moreover have "length (filter (\<lambda>d. (lk[c := ID]) ! unat d \<noteq> []) xs)
          \<le> length (filter (\<lambda>d. lk ! unat d \<noteq> []) xs) + (if c \<in> unat ` set xs then 1 else 0)"
        using Cons by simp
      ultimately show ?thesis using False by (auto split: if_splits)
    qed
  qed
  from this [of "drop k perm"] assms(1) show ?thesis
    by (auto simp: ahead_def split: if_splits intro: le_trans)
qed

lemma ahead_update_same:
  assumes "distinct perm" "k < length perm" "unat (perm ! k) = c"
  shows "ahead (lk[c := ID]) perm (k + 1) = ahead lk perm (k + 1)"
proof -
  have "\<forall>d \<in> set (drop (k + 1) perm). unat d \<noteq> c"
  proof
    fix d assume "d \<in> set (drop (k + 1) perm)"
    then obtain j where j: "j < length perm - (k + 1)" "d = perm ! (k + 1 + j)"
      by (auto simp: in_set_conv_nth)
    then have "perm ! (k + 1 + j) \<noteq> perm ! k"
      using assms(1,2) by (simp add: nth_eq_iff_index_eq)
    then show "unat d \<noteq> c" using j assms(3) word_unat_eq_iff [of d "perm ! k"] by simp
  qed
  then have ne: "\<forall>d \<in> set (drop (k + 1) perm). c \<noteq> unat d" by blast
  have "filter (\<lambda>d. (lk[c := ID]) ! unat d \<noteq> []) (drop (k + 1) perm)
     = filter (\<lambda>d. lk ! unat d \<noteq> []) (drop (k + 1) perm)"
    by (rule filter_cong [OF refl]) (use ne in simp)
  then show ?thesis by (simp add: ahead_def)
qed

lemma unat_succ_below:
  fixes n p :: u64
  assumes "unat n < unat p"
  shows "unat (n + 1) = unat n + 1"
proof -
  have "unat p < 2 ^ 64" using unsigned_less [of p, where 'a = nat] by simp
  then have "unat n + unat (1 :: u64) < 2 ^ LENGTH(64)" using assms by simp
  then show ?thesis using unat_add_lem [of n 1] by simp
qed

text \<open>
  One turn: while the fill counter is below \<open>numPartitions\<close> the turn does not panic, it
  writes the node into a slot that was free, and the cursor invariant is kept.
\<close>

lemma turn_ok:
  assumes po: "perms_ok m" and co: "cursors_ok m s"
    and lt: "unat (filled s) < unat (numPartitions m)" and i: "i < length (nodes m)"
  shows "\<exists>s' c. turn m i (nodes m ! i) s = Inr s' \<and> c < unat (numPartitions m)
           \<and> table s ! c = [] \<and> table s' = (table s)[c := nodes m ! i]
           \<and> filled s' = filled s + 1 \<and> unat (filled s') = unat (filled s) + 1
           \<and> cursors_ok m s'"
proof -
  define ID where "ID = nodes m ! i"
  define perm where "perm = perm_of m ID"
  have pk: "perm_ok (unat (numPartitions m)) perm"
    using po i by (simp add: perms_ok_def perm_def ID_def)
  then have len: "length perm = unat (numPartitions m)" and dist: "distinct perm"
    and rng: "\<forall>c \<in> set perm. unat c < length (table s)"
    using co by (simp_all add: perm_ok_def cursors_ok_def)
  have il: "i < length (nxt s)" using co i by (simp add: cursors_ok_def)
  have "nxt s ! i + ahead (table s) perm (nxt s ! i) \<le> unat (filled s)"
    using co i by (simp add: cursors_ok_def perm_def ID_def)
  then have "nxt s ! i + ahead (table s) perm (nxt s ! i) < length perm" using lt len by simp
  from find_slot_ok [OF this rng]
  obtain k where k: "find_slot perm (table s) (nxt s ! i) = Inr k" "nxt s ! i \<le> k"
    "k < length perm" "table s ! unat (perm ! k) = []"
    "k + ahead (table s) perm k = nxt s ! i + ahead (table s) perm (nxt s ! i)"
    by blast
  define c where "c = unat (perm ! k)"
  define s' where "s' = \<lparr>table = (table s)[c := ID], nxt = (nxt s)[i := k + 1],
     filled = filled s + 1\<rparr>"
  have t: "turn m i ID s = Inr s'"
    using il k(1) by (simp add: turn_def perm_def [symmetric] s'_def c_def)
  have cl: "c < unat (numPartitions m)" using pk k(3) by (simp add: perm_ok_def c_def)
  have un: "unat (filled s') = unat (filled s) + 1"
    using unat_succ_below [OF lt] by (simp add: s'_def)
  have "cursors_ok m s'"
    unfolding cursors_ok_def
  proof (intro conjI allI impI)
    show "length (table s') = unat (numPartitions m)" using co by (simp add: s'_def cursors_ok_def)
    show "length (nxt s') = length (nodes m)" using co by (simp add: s'_def cursors_ok_def)
    fix j assume j: "j < length (nodes m)"
    show "nxt s' ! j + ahead (table s') (perm_of m (nodes m ! j)) (nxt s' ! j) \<le> unat (filled s')"
    proof (cases "j = i")
      case True
      have "ahead (table s') perm (k + 1) = ahead (table s) perm (k + 1)"
        using ahead_update_same [OF dist k(3), of c] by (simp add: s'_def c_def)
      also have "\<dots> = ahead (table s) perm k"
        using ahead_step [OF k(3), of "table s"] k(4) by simp
      finally have "k + 1 + ahead (table s') perm (k + 1) \<le> unat (filled s) + 1"
        using k(5) \<open>nxt s ! i + ahead (table s) perm (nxt s ! i) \<le> unat (filled s)\<close> by simp
      then show ?thesis using True il un by (simp add: s'_def perm_def ID_def)
    next
      case False
      have "perm_ok (unat (numPartitions m)) (perm_of m (nodes m ! j))"
        using po j by (simp add: perms_ok_def)
      then have "distinct (perm_of m (nodes m ! j))" by (simp add: perm_ok_def)
      from ahead_update_le [OF this, of "table s" c ID "nxt s ! j"]
      have "ahead (table s') (perm_of m (nodes m ! j)) (nxt s ! j)
              \<le> ahead (table s) (perm_of m (nodes m ! j)) (nxt s ! j) + 1"
        by (simp add: s'_def)
      moreover have "nxt s ! j + ahead (table s) (perm_of m (nodes m ! j)) (nxt s ! j)
              \<le> unat (filled s)"
        using co j by (simp add: cursors_ok_def)
      moreover have "nxt s' ! j = nxt s ! j" using False by (simp add: s'_def)
      ultimately show ?thesis using un by simp
    qed
  qed
  then show ?thesis
    using t cl k(4) un by (intro exI [of _ s'] exI [of _ c]) (simp add: ID_def c_def s'_def)
qed

lemma count_list_update:
  assumes "c < length xs"
  shows "count_list (xs[c := v]) y + (if xs ! c = y then 1 else 0)
       = count_list xs y + (if v = y then 1 else 0)"
proof -
  have a: "xs[c := v] = take c xs @ v # drop (Suc c) xs"
    using assms by (simp add: upd_conv_take_nth_drop)
  have b: "xs = take c xs @ xs ! c # drop (Suc c) xs"
    using assms by (simp add: id_take_nth_drop)
  have "count_list xs y = count_list (take c xs) y + (if xs ! c = y then 1 else 0)
     + count_list (drop (Suc c) xs) y"
    by (subst b) simp
  moreover have "count_list (xs[c := v]) y = count_list (take c xs) y + (if v = y then 1 else 0)
     + count_list (drop (Suc c) xs) y"
    by (subst a) simp
  ultimately show ?thesis by simp
qed

lemma steps_by_Suc:
  "steps_by m ID (t + 1)
     = steps_by m ID t + (if nodes m ! (t mod length (nodes m)) = ID then 1 else 0)"
  by (simp add: steps_by_def)

lemma steps_by_le: "steps_by m ID t \<le> t"
  unfolding steps_by_def using length_filter_le [of _ "[0..<t]"] by simp

text \<open>
  The turn also keeps the occurrence counts in step with the turns taken: a node other
  than the empty string gains a slot, the empty string leaves the table as it is.
\<close>

lemma turn_inv:
  assumes po: "perms_ok m" and inv: "fill_inv m s"
    and lt: "unat (filled s) < unat (numPartitions m)" and i: "i < length (nodes m)"
    and pos: "unat (filled s) mod length (nodes m) = i"
  shows "\<exists>s'. turn m i (nodes m ! i) s = Inr s' \<and> filled s' = filled s + 1
           \<and> unat (filled s') = unat (filled s) + 1 \<and> fill_inv m s'"
proof -
  from turn_ok [OF po _ lt i] inv
  obtain s' c where s': "turn m i (nodes m ! i) s = Inr s'" "c < unat (numPartitions m)"
    "table s ! c = []" "table s' = (table s)[c := nodes m ! i]"
    "filled s' = filled s + 1" "unat (filled s') = unat (filled s) + 1" "cursors_ok m s'"
    by (auto simp: fill_inv_def)
  define t where "t = unat (filled s)"
  define ID where "ID = nodes m ! i"
  have cl: "c < length (table s)" using inv s'(2) by (simp add: fill_inv_def cursors_ok_def)
  have old: "count_list (table s) y =
     (if y = [] then unat (numPartitions m) + steps_by m [] t - t else steps_by m y t)" for y
    using inv by (simp add: fill_inv_def counts_ok_def t_def)
  have upd: "count_list (table s') y + (if [] = y then 1 else 0)
       = count_list (table s) y + (if ID = y then 1 else 0)" for y
    using count_list_update [OF cl, of "ID" y] s'(3,4) by (simp add: ID_def)
  have st: "steps_by m y (t + 1) = steps_by m y t + (if ID = y then 1 else 0)" for y
    using steps_by_Suc [of m y t] pos by (simp add: t_def ID_def)
  have sl: "steps_by m [] t \<le> t" by (rule steps_by_le)
  have tl: "t < unat (numPartitions m)" using lt by (simp add: t_def)
  have new: "count_list (table s') y =
     (if y = [] then unat (numPartitions m) + steps_by m [] (t + 1) - (t + 1)
      else steps_by m y (t + 1))" for y
  proof (cases "y = []")
    case True
    show ?thesis
    proof (cases "ID = []")
      case True
      with \<open>y = []\<close> upd [of y] old [of y] st [of y] sl tl show ?thesis by simp
    next
      case False
      with \<open>y = []\<close> upd [of y] old [of y] st [of y] sl tl show ?thesis by simp
    qed
  next
    case False
    with upd [of y] old [of y] st [of y] show ?thesis by auto
  qed
  have sub: "set (table s') \<subseteq> insert [] (set (nodes m))"
  proof -
    have "set (table s') \<subseteq> insert (nodes m ! i) (set (table s))"
      unfolding s'(4) by (rule set_update_subset_insert)
    moreover have "nodes m ! i \<in> set (nodes m)" using i by simp
    moreover have "set (table s) \<subseteq> insert [] (set (nodes m))"
      using inv by (simp add: fill_inv_def counts_ok_def)
    ultimately show ?thesis by blast
  qed
  have "counts_ok m s'"
    unfolding counts_ok_def using sub new by (simp add: s'(6) t_def)
  then show ?thesis using s' by (auto simp: fill_inv_def)
qed

text \<open>
  The \<open>range\<close> loop from position \<open>j\<close> in round \<open>r\<close>, and the enclosing loop by induction
  on the distance of the fill counter from \<open>numPartitions\<close>: the loop returns, with the
  counter at \<open>numPartitions\<close>.
\<close>

lemma range_nodes_inv:
  assumes po: "perms_ok m"
  shows "fill_inv m s \<Longrightarrow> j \<le> length (nodes m) \<Longrightarrow>
     unat (filled s) = r * length (nodes m) + j \<Longrightarrow> unat (filled s) < unat (numPartitions m) \<Longrightarrow>
     \<exists>b s'. range_nodes m j (drop j (nodes m)) s = Inr (b, s') \<and> fill_inv m s'
        \<and> (b \<longrightarrow> filled s' = numPartitions m)
        \<and> (\<not> b \<longrightarrow> unat (filled s') = (r + 1) * length (nodes m)
               \<and> unat (filled s') < unat (numPartitions m))"
proof (induction "length (nodes m) - j" arbitrary: j s)
  case 0
  then have "j = length (nodes m)" by simp
  then have "range_nodes m j (drop j (nodes m)) s = Inr (False, s)" by simp
  moreover have "unat (filled s) = (r + 1) * length (nodes m)"
    using "0.prems"(3) \<open>j = length (nodes m)\<close> by simp
  ultimately show ?case using "0.prems"(1,4) by blast
next
  case (Suc d)
  then have jl: "j < length (nodes m)" by simp
  then have pos: "unat (filled s) mod length (nodes m) = j" using Suc.prems(3) by simp
  from turn_inv [OF po Suc.prems(1) Suc.prems(4) jl pos]
  obtain s1 where s1: "turn m j (nodes m ! j) s = Inr s1" "filled s1 = filled s + 1"
    "unat (filled s1) = unat (filled s) + 1" "fill_inv m s1"
    by blast
  have dr: "drop j (nodes m) = nodes m ! j # drop (j + 1) (nodes m)"
    using jl by (simp add: Cons_nth_drop_Suc)
  show ?case
  proof (cases "filled s1 = numPartitions m")
    case True
    then have "range_nodes m j (drop j (nodes m)) s = Inr (True, s1)"
      using s1(1) by (simp add: dr)
    then show ?thesis using s1(4) True by blast
  next
    case False
    then have ne: "unat (filled s1) \<noteq> unat (numPartitions m)"
      by (simp add: word_unat_eq_iff)
    have lt1: "unat (filled s1) < unat (numPartitions m)"
      using s1(3) Suc.prems(4) ne by simp
    have "d = length (nodes m) - (j + 1)" using Suc.hyps(2) by simp
    moreover have "unat (filled s1) = r * length (nodes m) + (j + 1)"
      using s1(3) Suc.prems(3) by simp
    ultimately obtain b s' where r: "range_nodes m (j + 1) (drop (j + 1) (nodes m)) s1 = Inr (b, s')"
      "fill_inv m s'" "b \<longrightarrow> filled s' = numPartitions m"
      "\<not> b \<longrightarrow> unat (filled s') = (r + 1) * length (nodes m)
               \<and> unat (filled s') < unat (numPartitions m)"
      using Suc.hyps(1) [of "j + 1" s1] s1(4) jl lt1 by auto
    have "range_nodes m j (drop j (nodes m)) s = Inr (b, s')"
      using s1(1) False r(1) by (simp add: dr)
    then show ?thesis using r by blast
  qed
qed

lemma fill_loop_inv:
  assumes po: "perms_ok m" and ne: "nodes m \<noteq> []"
  shows "fill_inv m s \<Longrightarrow> unat (filled s) = r * length (nodes m) \<Longrightarrow>
     unat (filled s) < unat (numPartitions m) \<Longrightarrow>
     \<exists>s'. fill_loop m s = Some (Inr s') \<and> fill_inv m s' \<and> filled s' = numPartitions m"
proof (induction "unat (numPartitions m) - unat (filled s)" arbitrary: s r rule: less_induct)
  case less
  from range_nodes_inv [OF po less.prems(1), of 0 r] less.prems(2,3)
  obtain b s1 where s1: "range_nodes m 0 (nodes m) s = Inr (b, s1)" "fill_inv m s1"
    "b \<longrightarrow> filled s1 = numPartitions m"
    "\<not> b \<longrightarrow> unat (filled s1) = (r + 1) * length (nodes m)
               \<and> unat (filled s1) < unat (numPartitions m)"
    by auto
  show ?case
  proof (cases b)
    case True
    then have "fill_loop m s = Some (Inr s1)"
      using s1(1) by (subst fill_loop.simps) simp
    then show ?thesis using s1 True by simp
  next
    case False
    then have f1: "unat (filled s1) = (r + 1) * length (nodes m)"
      "unat (filled s1) < unat (numPartitions m)" using s1(4) by simp_all
    have "unat (filled s) < unat (filled s1)" using f1(1) less.prems(2) ne by simp
    then have "unat (numPartitions m) - unat (filled s1) < unat (numPartitions m) - unat (filled s)"
      using f1(2) by simp
    from less.hyps [OF this s1(2) f1(1) f1(2)]
    obtain s' where s': "fill_loop m s1 = Some (Inr s')" "fill_inv m s'"
      "filled s' = numPartitions m" by blast
    have "fill_loop m s = fill_loop m s1"
      using s1(1) False by (subst fill_loop.simps) simp
    then show ?thesis using s' by simp
  qed
qed

lemma fill_inv_init:
  assumes po: "perms_ok m"
  shows "fill_inv m \<lparr>table = replicate (unat (numPartitions m)) [],
               nxt = replicate (length (nodes m)) 0, filled = 0\<rparr>"
proof -
  have zero: "ahead (replicate n []) perm k = 0" if "\<forall>c \<in> set perm. unat c < n" for n perm k
  proof -
    have "\<forall>c \<in> set (drop k perm). replicate n [] ! unat c = ([] :: string)"
      using that by (auto dest: in_set_dropD)
    then show ?thesis by (simp add: ahead_def filter_empty_conv del: replicate.simps)
  qed
  have "ahead (replicate (unat (numPartitions m)) []) (perm_of m (nodes m ! i)) 0 = 0"
    if "i < length (nodes m)" for i
  proof (rule zero)
    have "nodes m ! i \<in> set (nodes m)" using that by simp
    then have "perm_ok (unat (numPartitions m)) (perm_of m (nodes m ! i))"
      using po by (simp add: perms_ok_def)
    then show "\<forall>c \<in> set (perm_of m (nodes m ! i)). unat c < unat (numPartitions m)"
      by (simp add: perm_ok_def)
  qed
  then have c: "cursors_ok m \<lparr>table = replicate (unat (numPartitions m)) [],
               nxt = replicate (length (nodes m)) 0, filled = 0\<rparr>"
    by (simp add: cursors_ok_def)
  have "count_list (replicate n ([] :: string)) y = (if y = [] then n else 0)" for n y
    by (induction n) auto
  then have "counts_ok m \<lparr>table = replicate (unat (numPartitions m)) [],
               nxt = replicate (length (nodes m)) 0, filled = 0\<rparr>"
    by (auto simp: counts_ok_def steps_by_def)
  with c show ?thesis by (simp add: fill_inv_def)
qed

text \<open>
  Hence \<open>populateLookup\<close> returns for every non-empty node list whose permutations are
  permutations, whatever the number of nodes, and in the table it returns every
  identifier occurs as often as it had turns among the first \<open>numPartitions\<close> turns.
\<close>

lemma populateLookup_inv:
  assumes po: "perms_ok m" and ne: "nodes m \<noteq> []" and p0: "numPartitions m \<noteq> 0"
  shows "\<exists>s. populateLookup m = Some (Inr (m\<lparr>lookup := table s\<rparr>))
           \<and> fill_inv m s \<and> filled s = numPartitions m"
proof -
  define s0 where "s0 = \<lparr>table = replicate (unat (numPartitions m)) ([] :: string),
               nxt = replicate (length (nodes m)) (0 :: nat), filled = (0 :: u64)\<rparr>"
  have "fill_inv m s0" unfolding s0_def by (rule fill_inv_init [OF po])
  moreover have "unat (filled s0) = 0 * length (nodes m)" by (simp add: s0_def)
  moreover have "unat (filled s0) < unat (numPartitions m)"
    using p0 by (simp add: s0_def unat_gt_0)
  ultimately obtain s where s: "fill_loop m s0 = Some (Inr s)" "fill_inv m s"
    "filled s = numPartitions m"
    using fill_loop_inv [OF po ne] by blast
  then show ?thesis using ne by (auto simp: populateLookup_def s0_def [symmetric])
qed

text \<open>What the invariant gives for the finished table.\<close>

lemma populateLookup_counts:
  assumes po: "perms_ok m" and ne: "nodes m \<noteq> []" and p0: "numPartitions m \<noteq> 0"
  shows "\<exists>tab. populateLookup m = Some (Inr (m\<lparr>lookup := tab\<rparr>))
           \<and> length tab = unat (numPartitions m)
           \<and> set tab \<subseteq> insert [] (set (nodes m))
           \<and> (\<forall>ID. count_list tab ID = steps_by m ID (unat (numPartitions m)))"
proof -
  from populateLookup_inv [OF assms]
  obtain s where s: "populateLookup m = Some (Inr (m\<lparr>lookup := table s\<rparr>))"
    "fill_inv m s" "filled s = numPartitions m" by blast
  have "count_list (table s) ID = steps_by m ID (unat (numPartitions m))" for ID
    using s(2,3) by (simp add: fill_inv_def counts_ok_def)
  then show ?thesis
    using s by (intro exI [of _ "table s"]) (simp add: fill_inv_def counts_ok_def cursors_ok_def)
qed

section \<open>The permutation generator\<close>

text \<open>
  A prime dividing a product divides a factor; so a stride between 1 and \<open>p - 1\<close> visits
  every residue of a prime \<open>p\<close> once.
\<close>

lemma is_prime_dvd_mult:
  assumes "is_prime p" "p dvd a * b"
  shows "p dvd a \<or> p dvd b"
proof (cases "p dvd a")
  case True
  then show ?thesis by simp
next
  case False
  have p1: "1 < p" and nd: "\<And>d. 2 \<le> d \<Longrightarrow> d < p \<Longrightarrow> \<not> d dvd p"
    using assms(1) by (auto simp: is_prime_def)
  have "coprime p a"
  proof (rule coprimeI)
    fix d assume d: "d dvd p" "d dvd a"
    have "d \<noteq> 0"
    proof
      assume "d = 0"
      with d(1) have "p = 0" by simp
      with p1 show False by simp
    qed
    moreover have "d \<le> p" using d(1) p1 by (simp add: dvd_imp_le)
    moreover have "d \<noteq> p" using d(2) False by auto
    ultimately have "d < 2" using nd [of d] d(1) by (cases "2 \<le> d") auto
    with \<open>d \<noteq> 0\<close> have "d = 1" by simp
    then show "is_unit d" by simp
  qed
  then have "p dvd b" using assms(2) by (simp add: coprime_dvd_mult_right_iff)
  then show ?thesis by simp
qed

lemma stride_inj:
  assumes pr: "is_prime p" and s: "0 < s" "s < p" and ij: "i < p" "j < p"
    and eq: "(off + i * s) mod p = (off + j * s) mod p"
  shows "i = j"
proof -
  have aux: "i' = j'" if le: "i' \<le> j'" and j': "j' < p"
    and e: "(off + i' * s) mod p = (off + j' * s) mod p" for i' j'
  proof -
    have "p dvd (off + j' * s) - (off + i' * s)"
      using le e by (subst mod_eq_dvd_iff_nat [symmetric]) (simp_all add: mult_le_mono1)
    moreover have "(off + j' * s) - (off + i' * s) = (j' - i') * s"
      by (simp add: diff_mult_distrib)
    ultimately have "p dvd (j' - i') * s" by simp
    then have "p dvd (j' - i') \<or> p dvd s" using is_prime_dvd_mult [OF pr] by blast
    moreover have "\<not> p dvd s" using s by (auto dest: dvd_imp_le)
    ultimately have "p dvd (j' - i')" by simp
    then have "j' - i' = 0" using j' by (auto dest: dvd_imp_le)
    with le show ?thesis by simp
  qed
  show ?thesis
  proof (cases "i \<le> j")
    case True
    then show ?thesis using aux [of i j] ij eq by simp
  next
    case False
    then show ?thesis using aux [of j i] ij eq by simp
  qed
qed

text \<open>
  For a partition count up to \<open>2^32\<close> neither the product nor the sum wraps around, and
  the generated sequence is the arithmetic progression modulo the count; for a prime count
  it is a permutation.
\<close>

lemma generatePermutationsForNode_nat:
  fixes m :: maglev
  defines "P \<equiv> unat (numPartitions m)"
  assumes p2: "2 \<le> P" and small: "P \<le> 2 ^ 32"
  shows "\<exists>off s. off < P \<and> 0 < s \<and> s < P \<and>
     (\<exists>perm. generatePermutationsForNode m node = Inr perm \<and> length perm = P \<and>
        (\<forall>i < P. unat (perm ! i) = (off + i * s) mod P))"
proof -
  define p where "p = numPartitions m"
  define offset where "offset = h1 m node mod p"
  define skip where "skip = h2 m node mod (p - 1) + 1"
  have P: "P = unat p" by (simp add: P_def p_def)
  have p0: "p \<noteq> 0" using p2 P by (auto simp: unat_gt_0 [symmetric])
  have pm: "unat (p - 1) = P - 1" using p0 by (simp add: unat_minus_one P)
  have p1: "p - 1 \<noteq> 0"
  proof
    assume "p - 1 = 0"
    then have "unat (p - 1) = 0" by simp
    with pm p2 show False by simp
  qed
  have off: "unat offset = unat (h1 m node) mod P" by (simp add: offset_def unat_mod P)
  then have offl: "unat offset < P" using p2 by simp
  have r: "unat (h2 m node mod (p - 1)) = unat (h2 m node) mod (P - 1)"
    by (simp add: unat_mod pm)
  then have rl: "unat (h2 m node mod (p - 1)) < P - 1" using p2 by simp
  have P64: "P < 2 ^ 64" using small by (simp add: order_le_less_trans [of P "2 ^ 32"])
  have "unat (h2 m node mod (p - 1)) + unat (1 :: u64) < 2 ^ LENGTH(64)"
    using rl P64 by simp
  then have sk: "unat skip = unat (h2 m node mod (p - 1)) + 1"
    unfolding skip_def using unat_add_lem [of "h2 m node mod (p - 1)" 1] by simp
  then have skl: "0 < unat skip" "unat skip < P" using rl by simp_all
  have sq: "P * P \<le> 2 ^ 64"
  proof -
    have "P * P \<le> 2 ^ 32 * 2 ^ 32" using small by (intro mult_le_mono) simp_all
    then show ?thesis by simp
  qed
  have el: "unat ((offset + of_nat i * skip) mod p) = (unat offset + i * unat skip) mod P"
    if i: "i < P" for i
  proof -
    have ui: "unat (of_nat i :: u64) = i" using i P64 by (simp add: unat_of_nat)
    have b1: "i * unat skip \<le> (P - 1) * (P - 1)" using i skl by (intro mult_le_mono) simp_all
    have b2: "unat offset + (P - 1) * (P - 1) < P * P"
    proof -
      obtain Q where Q: "P = Suc Q" using p2 by (cases P) simp_all
      have "Q + Q * Q < Suc Q * Suc Q" by simp
      moreover have "unat offset \<le> Q" using offl Q by simp
      ultimately show ?thesis using Q by simp
    qed
    have "unat (of_nat i :: u64) * unat skip < 2 ^ LENGTH(64)" using ui b1 b2 sq by simp
    then have um: "unat (of_nat i * skip) = i * unat skip"
      using unat_mult_lem [of "of_nat i :: u64" skip] ui by simp
    have "unat offset + unat (of_nat i * skip) < 2 ^ LENGTH(64)" using um b1 b2 sq by simp
    then have "unat (offset + of_nat i * skip) = unat offset + i * unat skip"
      using unat_add_lem [of offset "of_nat i * skip"] um by simp
    then show ?thesis by (simp add: unat_mod P)
  qed
  define perm where "perm = map (\<lambda>i. (offset + of_nat i * skip) mod p) [0..<P]"
  have g: "generatePermutationsForNode m node = Inr perm"
    using p0 p1 by (simp add: generatePermutationsForNode_def perm_def Let_def
        offset_def skip_def p_def P_def)
  have "\<forall>i < P. unat (perm ! i) = (unat offset + i * unat skip) mod P"
    using el by (simp add: perm_def)
  moreover have "length perm = P" by (simp add: perm_def)
  ultimately show ?thesis using g offl skl by blast
qed

lemma generatePermutationsForNode_ok:
  assumes pr: "is_prime (unat (numPartitions m))" and small: "unat (numPartitions m) \<le> 2 ^ 32"
  shows "\<exists>perm. generatePermutationsForNode m node = Inr perm
           \<and> perm_ok (unat (numPartitions m)) perm"
proof -
  define P where "P = unat (numPartitions m)"
  have p2: "2 \<le> P" using pr by (simp add: is_prime_def P_def)
  from generatePermutationsForNode_nat [of m node] p2 small
  obtain off s perm where g: "off < P" "0 < s" "s < P"
    "generatePermutationsForNode m node = Inr perm" "length perm = P"
    "\<forall>i < P. unat (perm ! i) = (off + i * s) mod P"
    unfolding P_def by blast
  have "distinct perm"
    unfolding distinct_conv_nth
  proof (intro allI impI)
    fix i j assume i: "i < length perm" and j: "j < length perm" and ne: "i \<noteq> j"
    show "perm ! i \<noteq> perm ! j"
    proof
      assume "perm ! i = perm ! j"
      then have "(off + i * s) mod P = (off + j * s) mod P" using g(5,6) i j by metis
      then have "i = j" using stride_inj [of P s i j off] pr g i j by (simp add: P_def)
      with ne show False by simp
    qed
  qed
  moreover have "\<forall>c \<in> set perm. unat c < P"
  proof
    fix c assume "c \<in> set perm"
    then obtain i where "i < P" "c = perm ! i" using g(5) by (auto simp: in_set_conv_nth)
    then show "unat c < P" using g(6) p2 by simp
  qed
  ultimately show ?thesis using g(4,5) by (auto simp: perm_ok_def P_def)
qed

section \<open>Primality certificates\<close>

text \<open>
  Lucas's criterion: \<open>n\<close> is prime if some \<open>a\<close> has \<open>a ^ (n - 1) = 1\<close> modulo \<open>n\<close> and
  \<open>a ^ ((n - 1) div q)\<close> is not 1 modulo \<open>n\<close> for every prime \<open>q\<close> dividing \<open>n - 1\<close>. Then the
  powers of \<open>a\<close> are \<open>n - 1\<close> distinct residues coprime to \<open>n\<close>.
\<close>

lemma powmod_eq: "powmod a e n = a ^ e mod n"
proof (induction a e n rule: powmod.induct)
  case (1 a e n)
  show ?case
  proof (cases "e = 0")
    case True
    then show ?thesis by simp
  next
    case False
    define h where "h = e div 2"
    have ih: "powmod a h n = a ^ h mod n" using "1.IH" False by (simp add: h_def)
    have sq: "(a ^ h mod n) * (a ^ h mod n) mod n = a ^ (2 * h) mod n"
      by (simp add: mod_mult_eq mult_2 power_add)
    show ?thesis
    proof (cases "even e")
      case True
      then have "e = 2 * h" by (auto simp: h_def)
      then show ?thesis
        using False True ih sq by (subst powmod.simps) (simp add: Let_def h_def [symmetric])
    next
      case odd: False
      then have e: "e = 2 * h + 1" by (auto simp: h_def elim: oddE)
      have "a ^ (2 * h + 1) = a ^ (2 * h) * a" by simp
      then have "a ^ (2 * h) mod n * a mod n = a ^ (2 * h + 1) mod n"
        by (metis mod_mult_left_eq)
      then show ?thesis
        using False odd ih sq e by (subst powmod.simps) (simp add: Let_def h_def [symmetric])
    qed
  qed
qed

lemma is_prime_divisor: "1 < k \<Longrightarrow> \<exists>q. is_prime q \<and> q dvd k"
proof (induction k rule: less_induct)
  case (less k)
  show ?case
  proof (cases "is_prime k")
    case True
    then have "is_prime k \<and> k dvd k" by simp
    then show ?thesis by (rule exI)
  next
    case False
    then obtain d where d: "2 \<le> d" "d < k" "d dvd k"
      using less.prems by (auto simp: is_prime_def)
    then obtain q where "is_prime q" "q dvd d" using less.IH [of d] by auto
    then show ?thesis using d(3) by (meson dvd_trans)
  qed
qed

lemma power_mod_one:
  fixes a n :: nat
  assumes "1 < n" "a ^ d mod n = 1"
  shows "a ^ (d * k) mod n = 1"
proof -
  have "a ^ (d * k) mod n = (a ^ d mod n) ^ k mod n"
    by (simp add: power_mult power_mod)
  then show ?thesis using assms by simp
qed

lemma lucas_prime:
  fixes a n :: nat
  assumes n1: "1 < n" and fermat: "a ^ (n - 1) mod n = 1"
    and prim: "\<And>q. is_prime q \<Longrightarrow> q dvd (n - 1) \<Longrightarrow> a ^ ((n - 1) div q) mod n \<noteq> 1"
  shows "is_prime n"
proof -
  define N where "N = n - 1"
  have N0: "0 < N" using n1 by (simp add: N_def)
  define ord where "ord = (LEAST d. 0 < d \<and> a ^ d mod n = 1)"
  have ex: "0 < N \<and> a ^ N mod n = 1" using N0 fermat by (simp add: N_def)
  have "0 < ord \<and> a ^ ord mod n = 1"
    unfolding ord_def by (rule LeastI [of "\<lambda>d. 0 < d \<and> a ^ d mod n = 1" N, OF ex])
  then have ord: "0 < ord" "a ^ ord mod n = 1" by blast+
  have ordmin: "\<not> (0 < d \<and> a ^ d mod n = 1)" if "d < ord" for d
    using not_less_Least [of d "\<lambda>d. 0 < d \<and> a ^ d mod n = 1"] that unfolding ord_def by blast
  have orddvd: "ord dvd N"
  proof -
    define r where "r = N mod ord"
    have rl: "r < ord" using ord(1) by (simp add: r_def)
    have "N = ord * (N div ord) + r" by (simp add: r_def)
    then have "a ^ N = a ^ (ord * (N div ord)) * a ^ r" by (metis power_add)
    then have "a ^ N mod n = (a ^ (ord * (N div ord)) mod n) * (a ^ r mod n) mod n"
      by (simp add: mod_mult_eq)
    then have "a ^ r mod n = 1"
      using ex power_mod_one [OF n1 ord(2), of "N div ord"] by simp
    then have "r = 0" using ordmin [OF rl] by auto
    then show ?thesis by (simp add: r_def mod_eq_0_iff_dvd)
  qed
  have ordN: "ord = N"
  proof (rule ccontr)
    assume ne: "ord \<noteq> N"
    obtain k where k: "N = ord * k" using orddvd by (auto simp: dvd_def)
    have "k \<noteq> 0" using N0 k by (cases k) simp_all
    moreover have "k \<noteq> 1" using ne k by auto
    ultimately have "1 < k" by simp
    then obtain q where q: "is_prime q" "q dvd k" using is_prime_divisor by blast
    then obtain k' where k': "k = q * k'" by (auto simp: dvd_def)
    have q0: "0 < q" using q(1) by (simp add: is_prime_def)
    have "q dvd N" using k q(2) by simp
    moreover have "N div q = ord * k'" using k k' q0 by simp
    then have "a ^ (N div q) mod n = 1" using power_mod_one [OF n1 ord(2), of k'] by simp
    ultimately show False using prim [OF q(1)] by (simp add: N_def)
  qed
  have inj: "inj_on (\<lambda>i. a ^ i mod n) {0..<N}"
  proof (rule inj_onI)
    fix i j assume i: "i \<in> {0..<N}" and j: "j \<in> {0..<N}"
      and eq: "a ^ i mod n = a ^ j mod n"
    have aux: "i' = j'" if le: "i' \<le> j'" and jN: "j' < N"
      and e: "a ^ i' mod n = a ^ j' mod n" for i' j'
    proof (rule ccontr)
      assume "i' \<noteq> j'"
      then have lt: "i' < j'" using le by simp
      define d where "d = N - (j' - i')"
      have d: "0 < d" "d < N" using lt jN by (simp_all add: d_def)
      have "a ^ d = a ^ (N - j') * a ^ i'"
        using lt jN by (simp add: d_def power_add [symmetric])
      then have "a ^ d mod n = (a ^ (N - j') mod n) * (a ^ i' mod n) mod n"
        by (simp add: mod_mult_eq)
      also have "\<dots> = (a ^ (N - j') mod n) * (a ^ j' mod n) mod n" using e by simp
      also have "\<dots> = a ^ (N - j' + j') mod n" by (simp add: mod_mult_eq power_add)
      also have "\<dots> = 1" using jN ex by simp
      finally show False using ordmin [of d] d ordN by simp
    qed
    show "i = j"
    proof (cases "i \<le> j")
      case True
      then show ?thesis using aux [of i j] j eq by simp
    next
      case False
      then show ?thesis using aux [of j i] i eq by simp
    qed
  qed
  have unit: "coprime (a ^ i mod n) n \<and> 0 < a ^ i mod n" if "i < N" for i
  proof -
    have "(a ^ i mod n) * (a ^ (N - i) mod n) mod n = a ^ (i + (N - i)) mod n"
      by (simp add: mod_mult_eq power_add)
    then have one: "(a ^ i mod n) * (a ^ (N - i) mod n) mod n = 1" using that ex by simp
    have "coprime (a ^ i mod n) n"
    proof (rule coprimeI)
      fix g assume g: "g dvd a ^ i mod n" "g dvd n"
      then have "g dvd (a ^ i mod n) * (a ^ (N - i) mod n)" by simp
      then have "g dvd (a ^ i mod n) * (a ^ (N - i) mod n) mod n" using g(2) by (simp add: dvd_mod)
      then show "is_unit g" using one by simp
    qed
    moreover have "a ^ i mod n \<noteq> 0" using one n1 by (metis mod_0 mult_0 zero_neq_one)
    ultimately show ?thesis by simp
  qed
  have sub: "(\<lambda>i. a ^ i mod n) ` {0..<N} \<subseteq> {1..<n}"
  proof
    fix x assume "x \<in> (\<lambda>i. a ^ i mod n) ` {0..<N}"
    then obtain i where "i < N" "x = a ^ i mod n" by auto
    then show "x \<in> {1..<n}" using unit [of i] n1 by simp
  qed
  have "card ((\<lambda>i. a ^ i mod n) ` {0..<N}) = N" using inj by (simp add: card_image)
  moreover have "card {1..<n} = N" by (simp add: N_def)
  ultimately have all: "(\<lambda>i. a ^ i mod n) ` {0..<N} = {1..<n}"
    using sub by (intro card_subset_eq) simp_all
  have "\<not> d dvd n" if d: "d \<in> {2..<n}" for d
  proof
    assume dv: "d dvd n"
    have "d \<in> {1..<n}" using d by simp
    then obtain i where "i < N" "d = a ^ i mod n" using all by (metis (mono_tags, lifting) atLeastLessThan_iff imageE)
    then have "coprime d n" using unit [of i] by simp
    then have "is_unit d" using dv by (meson coprime_common_divisor dvd_refl)
    then show False using d by simp
  qed
  then show ?thesis using n1 by (simp add: is_prime_def)
qed

lemma lucas_powmod:
  assumes "1 < n" and "powmod a (n - 1) n = 1"
    and "\<And>q. is_prime q \<Longrightarrow> q dvd (n - 1) \<Longrightarrow> powmod a ((n - 1) div q) n \<noteq> 1"
  shows "is_prime n"
  using assms unfolding powmod_eq by (rule lucas_prime)

lemma is_prime_dvd_power: "is_prime q \<Longrightarrow> q dvd a ^ k \<Longrightarrow> q dvd a"
proof (induction k)
  case 0
  then show ?case by (simp add: is_prime_def)
next
  case (Suc k)
  then show ?case using is_prime_dvd_mult [of q a "a ^ k"] by auto
qed

lemma is_prime_dvd_prime:
  assumes q: "is_prime q" and r: "is_prime r" and d: "q dvd r"
  shows "q = r"
proof -
  have "q \<le> r" using d r by (auto simp: is_prime_def dest: dvd_imp_le)
  moreover have "\<not> q < r" using q r d by (auto simp: is_prime_def)
  ultimately show ?thesis by simp
qed

lemma small_primes: "is_prime 2" "is_prime 3" "is_prime 5" "is_prime 23"
  by code_simp+

lemma prime_4630511617: "is_prime 4630511617"
proof (rule lucas_powmod [where a = 5])
  show "1 < (4630511617 :: nat)" by simp
  show "powmod 5 (4630511617 - 1) 4630511617 = 1" by (simp add: powmod.simps Let_def)
  fix q :: nat assume q: "is_prime q" "q dvd 4630511617 - 1"
  have "(4630511617 :: nat) - 1 = 2 ^ 26 * (3 * 23)" by simp
  then have "q dvd 2 ^ 26 * (3 * 23)" using q(2) by simp
  then have "q dvd 2 \<or> q dvd 3 \<or> q dvd 23"
    using is_prime_dvd_mult [OF q(1)] is_prime_dvd_power [OF q(1)] by blast
  then consider "q = 2" | "q = 3" | "q = 23"
    using is_prime_dvd_prime [OF q(1)] small_primes by blast
  then show "powmod 5 ((4630511617 - 1) div q) 4630511617 \<noteq> 1"
  proof cases
    case 1
    show ?thesis unfolding 1 by (simp add: powmod.simps Let_def)
  next
    case 2
    show ?thesis unfolding 2 by (simp add: powmod.simps Let_def)
  next
    case 3
    show ?thesis unfolding 3 by (simp add: powmod.simps Let_def)
  qed
qed

section \<open>Queries\<close>

text \<open>
  Up to \<open>2^63\<close> partitions the conversion to \<open>int\<close> is exact.
\<close>

lemma PartitionID_in_range:
  assumes "numPartitions m \<noteq> 0" and "unat (numPartitions m) \<le> 2 ^ 63"
  shows "PartitionID m key = Inr (int (unat key mod unat (numPartitions m)))
         \<and> unat key mod unat (numPartitions m) < unat (numPartitions m)"
proof -
  have pos: "0 < unat (numPartitions m)" using assms(1) by (simp add: unat_gt_0)
  have lt: "unat (key mod numPartitions m) < unat (numPartitions m)"
    using pos by (simp add: unat_mod)
  then have "unat (key mod numPartitions m) < 2 ^ 63" using assms(2) by simp
  then have "int (unat (key mod numPartitions m)) < int (2 ^ 63)"
    by (simp only: of_nat_less_iff)
  then have "uint (key mod numPartitions m) < 2 ^ 63" by simp
  moreover have "- (2 ^ 63) \<le> uint (key mod numPartitions m)"
    by (rule order_trans [of _ 0]) simp_all
  ultimately have "signed_take_bit 63 (uint (key mod numPartitions m)) = uint (key mod numPartitions m)"
    by (rule signed_take_bit_int_eq_self [rotated])
  then have "sint (key mod numPartitions m) = int (unat (key mod numPartitions m))"
    by (simp add: sint_uint)
  then show ?thesis using assms(1) pos by (simp add: PartitionID_def unat_mod)
qed

section \<open>Round-robin shares\<close>



lemma steps_by_absent:
  assumes "ID \<notin> set (nodes m)" "nodes m \<noteq> []"
  shows "steps_by m ID P = 0"
proof -
  have "nodes m ! (t mod length (nodes m)) \<noteq> ID" for t
    using assms by (metis length_greater_0_conv mod_less_divisor nth_mem)
  then show ?thesis by (simp add: steps_by_def)
qed

section \<open>The table does not depend on the previous table\<close>

text \<open>
  The builder reads the node list, the permutation cache and the partition count only.
\<close>

lemma perm_of_frame: "perm_of (m\<lparr>lookup := l\<rparr>) ID = perm_of m ID"
  by (simp add: perm_of_def)

lemma turn_frame: "turn (m\<lparr>lookup := l\<rparr>) i ID s = turn m i ID s"
  unfolding turn_def perm_of_frame by (rule refl)

lemma range_nodes_frame:
  "range_nodes (m\<lparr>lookup := l\<rparr>) i ns s = range_nodes m i ns s"
proof (induction ns arbitrary: i s)
  case Nil
  show ?case by simp
next
  case (Cons ID rest)
  show ?case
  proof (cases "turn m i ID s")
    case (Inl e)
    then show ?thesis by (simp add: turn_frame)
  next
    case (Inr s')
    then show ?thesis using Cons by (simp add: turn_frame)
  qed
qed

lemma fill_loop_frame_Some:
  assumes "fill_loop m s = Some y"
  shows "fill_loop (m\<lparr>lookup := l\<rparr>) s = Some y"
proof (rule fill_loop.raw_induct
    [where P = "\<lambda>m s y. fill_loop (m\<lparr>lookup := l\<rparr>) s = Some y", OF _ assms])
  fix f :: "maglev \<Rightarrow> fill \<Rightarrow> (panic + fill) option" and m s y
  assume IH: "\<And>m s y. f m s = Some y \<Longrightarrow> fill_loop (m\<lparr>lookup := l\<rparr>) s = Some y"
    and body: "(case range_nodes m 0 (nodes m) s of Inl e \<Rightarrow> Some (Inl e)
      | Inr r \<Rightarrow> if fst r then Some (Inr (snd r)) else f m (snd r)) = Some y"
  show "fill_loop (m\<lparr>lookup := l\<rparr>) s = Some y"
  proof (cases "range_nodes m 0 (nodes m) s")
    case (Inl e)
    then show ?thesis
      using body by (subst fill_loop.simps) (simp add: range_nodes_frame)
  next
    case (Inr r)
    show ?thesis
    proof (cases "fst r")
      case True
      then show ?thesis
        using body Inr by (subst fill_loop.simps) (simp add: range_nodes_frame)
    next
      case False
      then have "f m (snd r) = Some y" using body Inr by simp
      then have "fill_loop (m\<lparr>lookup := l\<rparr>) (snd r) = Some y" by (rule IH)
      then show ?thesis
        using Inr False by (subst fill_loop.simps) (simp add: range_nodes_frame)
    qed
  qed
qed

lemma populateLookup_frame:
  assumes "populateLookup m = Some (Inr (m\<lparr>lookup := tab\<rparr>))"
  shows "populateLookup (m\<lparr>lookup := l\<rparr>) = Some (Inr (m\<lparr>lookup := tab\<rparr>))"
proof -
  define s0 where "s0 = \<lparr>table = replicate (unat (numPartitions m)) ([] :: string),
               nxt = replicate (length (nodes m)) (0 :: nat), filled = (0 :: u64)\<rparr>"
  have ne: "length (nodes m) \<noteq> 0" using assms by (auto simp: populateLookup_def split: if_splits)
  then obtain s where s: "fill_loop m s0 = Some (Inr s)" "m\<lparr>lookup := table s\<rparr> = m\<lparr>lookup := tab\<rparr>"
    using assms
    by (auto simp: populateLookup_def s0_def [symmetric] split: option.splits sum.splits)
  have "fill_loop (m\<lparr>lookup := l\<rparr>) s0 = Some (Inr s)" using s(1) by (rule fill_loop_frame_Some)
  then have "populateLookup (m\<lparr>lookup := l\<rparr>) = Some (Inr (m\<lparr>lookup := l, lookup := table s\<rparr>))"
    using ne by (simp add: populateLookup_def s0_def [symmetric])
  moreover have "lookup (m\<lparr>lookup := table s\<rparr>) = lookup (m\<lparr>lookup := tab\<rparr>)"
    using s(2) by (rule arg_cong)
  then have "table s = tab" by simp
  ultimately show ?thesis by simp
qed

text \<open>
  A cursor search that succeeds stops at a free slot, so a turn of the empty string
  writes the empty string over itself.
\<close>

lemma find_slot_Inr:
  "find_slot perm lk k = Inr k' \<Longrightarrow>
     k' < length perm \<and> unat (perm ! k') < length lk \<and> lk ! unat (perm ! k') = []"
proof (induction perm lk k rule: find_slot.induct)
  case (1 perm lk k)
  have a: "k < length perm" "unat (perm ! k) < length lk"
    using "1.prems" by (subst (asm) find_slot.simps, simp split: if_splits)+
  show ?case
  proof (cases "lk ! unat (perm ! k) \<noteq> []")
    case True
    then have "find_slot perm lk (k + 1) = Inr k'"
      using "1.prems" a by (subst (asm) find_slot.simps) simp
    then show ?thesis using "1.IH" a True by simp
  next
    case False
    then have "k' = k" using "1.prems" a by (subst (asm) find_slot.simps) simp
    then show ?thesis using a False by simp
  qed
qed

lemma turn_Inr:
  "turn m i ID s = Inr s' \<Longrightarrow>
     \<exists>k. find_slot (perm_of m ID) (table s) (nxt s ! i) = Inr k \<and>
       s' = \<lparr>table = (table s)[unat (perm_of m ID ! k) := ID], nxt = (nxt s)[i := k + 1],
             filled = filled s + 1\<rparr>"
  unfolding turn_def
  by (cases "find_slot (perm_of m ID) (table s) (nxt s ! i)") (simp_all split: if_splits)

lemma turn_blank:
  assumes "turn m i [] s = Inr s'"
  shows "table s' = table s \<and> filled s' = filled s + 1"
proof -
  from turn_Inr [OF assms] obtain k
    where k: "find_slot (perm_of m []) (table s) (nxt s ! i) = Inr k"
    "s' = \<lparr>table = (table s)[unat (perm_of m [] ! k) := []], nxt = (nxt s)[i := k + 1],
          filled = filled s + 1\<rparr>"
    by blast
  have "table s ! unat (perm_of m [] ! k) = []" using find_slot_Inr [OF k(1)] by simp
  then have "(table s)[unat (perm_of m [] ! k) := []] = table s"
    by (metis list_update_id)
  then show ?thesis using k(2) by simp
qed

section \<open>The concrete instances are built by the constructor\<close>

text \<open>
  Each concrete instance is what the constructor returns for its node list.
\<close>

lemma populateLookup_eval:
  assumes "map_option (map_sum id lookup) (populateLookup m) = Some (Inr tab)"
  shows "populateLookup m = Some (Inr (m\<lparr>lookup := tab\<rparr>))"
  using assms
  by (auto simp: populateLookup_def split: if_splits option.splits sum.splits)

lemma inst_abc_built:
  "NewMaglev [''b'', ''a'', ''c''] 7 hash_sum hash_mix = Some (Inr (Inr inst_abc))"
proof -
  have p: "is_prime (unat (7 :: u64))" by code_simp
  have s: "sort [''b'', ''a'', ''c''] = [''a'', ''b'', ''c'']" by code_simp
  define m0 where "m0 = \<lparr>permutations = None, lookup = [], nodes = [''a'', ''b'', ''c''],
                    numPartitions = 7, h1 = hash_sum, h2 = hash_mix\<rparr>"
  have ga: "generatePermutationsForNode m0 ''a'' = Inr [6, 4, 2, 0, 5, 3, 1]"
    unfolding m0_def by code_simp
  have gb: "generatePermutationsForNode m0 ''b'' = Inr [0, 2, 4, 6, 1, 3, 5]"
    unfolding m0_def by code_simp
  have gc: "generatePermutationsForNode m0 ''c'' = Inr [1, 6, 4, 2, 0, 5, 3]"
    unfolding m0_def by code_simp
  have m1: "m0\<lparr>permutations := permutations inst_abc\<rparr> = inst_abc\<lparr>lookup := []\<rparr>"
    by (simp add: m0_def inst_abc_def)
  have g: "generatePermutations m0 = Inr (inst_abc\<lparr>lookup := []\<rparr>)"
    unfolding m1 [symmetric]
    using ga gb gc by (simp add: generatePermutations_def inst_abc_def) (simp add: m0_def)
  have "map_option (map_sum id lookup) (populateLookup (inst_abc\<lparr>lookup := []\<rparr>))
             = Some (Inr (lookup inst_abc))"
    by code_simp
  then have "populateLookup (inst_abc\<lparr>lookup := []\<rparr>) = Some (Inr inst_abc)"
    using populateLookup_eval by fastforce
  then show ?thesis using p s g by (simp add: NewMaglev_def m0_def [symmetric])
qed

lemma inst_abc_ok:
  "nodes inst_abc \<noteq> []" "[] \<notin> set (nodes inst_abc)" "distinct (nodes inst_abc)"
  "perms_ok inst_abc" "numPartitions inst_abc \<noteq> 0"
  by code_simp+

lemma inst_abc_table:
  "populateLookup inst_abc = Some (Inr (inst_abc\<lparr>lookup := lookup inst_abc\<rparr>))"
proof (rule populateLookup_eval)
  show "map_option (map_sum id lookup) (populateLookup inst_abc) = Some (Inr (lookup inst_abc))"
    by code_simp
qed

lemma inst_blank_built:
  "NewMaglev ['''', ''c''] 3 hash_sum hash_mix = Some (Inr (Inr inst_blank))"
proof -
  have p: "is_prime (unat (3 :: u64))" by code_simp
  have s: "sort ['''', ''c''] = ['''', ''c'']" by code_simp
  define m0 where "m0 = \<lparr>permutations = None, lookup = [], nodes = ['''', ''c''],
                    numPartitions = 3, h1 = hash_sum, h2 = hash_mix\<rparr>"
  have ga: "generatePermutationsForNode m0 '''' = Inr [0, 1, 2]"
    unfolding m0_def by code_simp
  have gc: "generatePermutationsForNode m0 ''c'' = Inr [0, 1, 2]"
    unfolding m0_def by code_simp
  have m1: "m0\<lparr>permutations := permutations inst_blank\<rparr> = inst_blank\<lparr>lookup := []\<rparr>"
    by (simp add: m0_def inst_blank_def)
  have g: "generatePermutations m0 = Inr (inst_blank\<lparr>lookup := []\<rparr>)"
    unfolding m1 [symmetric]
    using ga gc by (simp add: generatePermutations_def inst_blank_def) (simp add: m0_def)
  have "map_option (map_sum id lookup) (populateLookup (inst_blank\<lparr>lookup := []\<rparr>))
             = Some (Inr (lookup inst_blank))"
    by code_simp
  then have "populateLookup (inst_blank\<lparr>lookup := []\<rparr>) = Some (Inr inst_blank)"
    using populateLookup_eval by fastforce
  then show ?thesis using p s g by (simp add: NewMaglev_def m0_def [symmetric])
qed

section \<open>Membership operations\<close>

text \<open>
  The candidate loops leave the table and the partition count alone; one step of
  \<open>add_loop\<close> that does not panic either skips a member or inserts the candidate at its sorted
  position together with its permutation.
\<close>

lemma remove_loop_frame:
  "remove_loop m n ns = Inr (m1, k) \<Longrightarrow>
     lookup m1 = lookup m \<and> numPartitions m1 = numPartitions m"
proof (induction ns arbitrary: m n)
  case Nil
  then show ?case by simp
next
  case (Cons node rest)
  then show ?case by (auto simp: Let_def split: if_splits)
qed

lemma generatePermutationsForNode_frame:
  "generatePermutationsForNode (m\<lparr>nodes := ns\<rparr>) node = generatePermutationsForNode m node"
  by (simp add: generatePermutationsForNode_def)

lemma add_loop_step:
  assumes "add_loop m n (node # rest) = Inr r"
  shows "SearchStrings (nodes m) node < length (nodes m)"
    and "nodes m ! SearchStrings (nodes m) node = node \<Longrightarrow> add_loop m n rest = Inr r"
    and "nodes m ! SearchStrings (nodes m) node \<noteq> node \<Longrightarrow>
      \<exists>perm pm. generatePermutationsForNode m node = Inr perm \<and> permutations m = Some pm \<and>
        add_loop (m\<lparr>nodes := take (SearchStrings (nodes m) node) (nodes m) @ [node]
                             @ drop (SearchStrings (nodes m) node) (nodes m),
                   permutations := Some (pm(node \<mapsto> perm))\<rparr>) (n + 1) rest = Inr r"
proof -
  let ?pos = "SearchStrings (nodes m) node"
  show pl: "?pos < length (nodes m)"
    using assms(1) by (cases "?pos < length (nodes m)") (simp_all add: Let_def)
  show "add_loop m n rest = Inr r" if "nodes m ! ?pos = node"
    using assms(1) pl that by (simp add: Let_def)
  show "\<exists>perm pm. generatePermutationsForNode m node = Inr perm \<and> permutations m = Some pm \<and>
        add_loop (m\<lparr>nodes := take ?pos (nodes m) @ [node] @ drop ?pos (nodes m),
                   permutations := Some (pm(node \<mapsto> perm))\<rparr>) (n + 1) rest = Inr r"
    if ne: "nodes m ! ?pos \<noteq> node"
  proof -
    obtain perm where perm: "generatePermutationsForNode m node = Inr perm"
      using assms(1) pl ne
      by (cases "generatePermutationsForNode m node")
         (simp_all add: Let_def generatePermutationsForNode_frame)
    obtain pm where pm: "permutations m = Some pm"
      using assms(1) pl ne perm
      by (cases "permutations m") (simp_all add: Let_def generatePermutationsForNode_frame)
    have "add_loop (m\<lparr>nodes := take ?pos (nodes m) @ [node] @ drop ?pos (nodes m),
                        permutations := Some (pm(node \<mapsto> perm))\<rparr>) (n + 1) rest = Inr r"
      using assms(1) pl ne perm pm
      by (simp add: Let_def generatePermutationsForNode_frame)
    then show ?thesis using perm pm by blast
  qed
qed

lemma set_insert_at: "set (take pos xs @ [x] @ drop pos xs) = insert x (set xs)"
proof -
  have "set (take pos xs) \<union> set (drop pos xs) = set xs"
    by (metis append_take_drop_id set_append)
  then show ?thesis by auto
qed

lemma add_loop_frame:
  "add_loop m n ns = Inr (m1, k) \<Longrightarrow>
     numPartitions m1 = numPartitions m \<and> lookup m1 = lookup m
     \<and> h1 m1 = h1 m \<and> h2 m1 = h2 m
     \<and> set (nodes m1) = set (nodes m) \<union> set ns
     \<and> n \<le> k \<and> length (nodes m1) = length (nodes m) + (k - n)"
proof (induction ns arbitrary: m n)
  case Nil
  then show ?case by simp
next
  case (Cons node rest)
  let ?pos = "SearchStrings (nodes m) node"
  note st = add_loop_step [OF Cons.prems]
  show ?case
  proof (cases "nodes m ! ?pos = node")
    case True
    from Cons.IH [OF st(2) [OF True]]
    have ih: "numPartitions m1 = numPartitions m" "lookup m1 = lookup m"
      "h1 m1 = h1 m" "h2 m1 = h2 m" "set (nodes m1) = set (nodes m) \<union> set rest"
      "n \<le> k" "length (nodes m1) = length (nodes m) + (k - n)" by simp_all
    have "node \<in> set (nodes m)" using True st(1) by (metis nth_mem)
    then show ?thesis using ih by auto
  next
    case False
    from st(3) [OF False] obtain perm pm where
      r: "add_loop (m\<lparr>nodes := take ?pos (nodes m) @ [node] @ drop ?pos (nodes m),
                        permutations := Some (pm(node \<mapsto> perm))\<rparr>) (n + 1) rest = Inr (m1, k)"
      by blast
    have len: "length (take ?pos (nodes m) @ [node] @ drop ?pos (nodes m)) = length (nodes m) + 1"
      using st(1) by simp
    from Cons.IH [OF r] set_insert_at [of ?pos "nodes m" node] len show ?thesis by auto
  qed
qed

lemma add_loop_perms_ok:
  "is_prime (unat (numPartitions m)) \<Longrightarrow> unat (numPartitions m) \<le> 2 ^ 32 \<Longrightarrow> perms_ok m \<Longrightarrow>
   add_loop m n ns = Inr (m1, k) \<Longrightarrow> perms_ok m1"
proof (induction ns arbitrary: m n)
  case Nil
  then show ?case by simp
next
  case (Cons node rest)
  let ?pos = "SearchStrings (nodes m) node"
  note st = add_loop_step [OF Cons.prems(4)]
  show ?case
  proof (cases "nodes m ! ?pos = node")
    case True
    then show ?thesis using Cons.IH [OF Cons.prems(1,2,3) st(2)] by blast
  next
    case False
    from st(3) [OF False] obtain perm pm where g: "generatePermutationsForNode m node = Inr perm"
      and pm: "permutations m = Some pm"
      and r: "add_loop (m\<lparr>nodes := take ?pos (nodes m) @ [node] @ drop ?pos (nodes m),
                        permutations := Some (pm(node \<mapsto> perm))\<rparr>) (n + 1) rest = Inr (m1, k)"
      by blast
    define m' where "m' = m\<lparr>nodes := take ?pos (nodes m) @ [node] @ drop ?pos (nodes m),
                        permutations := Some (pm(node \<mapsto> perm))\<rparr>"
    have pk: "perm_ok (unat (numPartitions m)) perm"
      using generatePermutationsForNode_ok [OF Cons.prems(1,2), of node] g by simp
    have old: "perm_of m' ID = (if ID = node then perm else perm_of m ID)" for ID
      using pm by (simp add: m'_def perm_of_def)
    have np: "numPartitions m' = numPartitions m" by (simp add: m'_def)
    have "perms_ok m'"
      unfolding perms_ok_def
    proof
      fix ID assume "ID \<in> set (nodes m')"
      then have "ID = node \<or> ID \<in> set (nodes m)"
        using set_insert_at [of ?pos "nodes m" node] by (auto simp: m'_def)
      then show "perm_ok (unat (numPartitions m')) (perm_of m' ID)"
        using pk Cons.prems(3) old np by (auto simp: perms_ok_def)
    qed
    moreover have "add_loop m' (n + 1) rest = Inr (m1, k)" using r unfolding m'_def .
    moreover have "is_prime (unat (numPartitions m'))" "unat (numPartitions m') \<le> 2 ^ 32"
      using Cons.prems(1,2) np by simp_all
    ultimately show ?thesis using Cons.IH [of m' "n + 1"] by blast
  qed
qed

lemma sorted_insert_at:
  assumes "sorted a"
  shows "sorted (take (SearchStrings a x) a @ [x] @ drop (SearchStrings a x) a)"
proof -
  let ?pos = "SearchStrings a x"
  have lo: "y < x" if "y \<in> set (take ?pos a)" for y
  proof -
    from that obtain k where "k < ?pos" "k < length a" "y = a ! k"
      by (auto simp: in_set_conv_nth)
    then show ?thesis using SearchStrings_less [OF assms] by simp
  qed
  have hi: "x \<le> y" if "y \<in> set (drop ?pos a)" for y
  proof -
    from that obtain j where "j < length (drop ?pos a)" "y = drop ?pos a ! j"
      unfolding in_set_conv_nth by blast
    then have j: "?pos + j < length a" "y = a ! (?pos + j)"
      using SearchStrings_le [of a x] by simp_all
    then have "x \<le> a ! ?pos" using SearchStrings_ge [of a x] by simp
    moreover have "a ! ?pos \<le> a ! (?pos + j)" using assms j(1) sorted_nth_mono
      by (metis le_add1)
    ultimately show ?thesis using j(2) by (meson order_trans)
  qed
  have "sorted (take ?pos a)" "sorted (drop ?pos a)"
    using assms by (simp_all add: sorted_wrt_take sorted_wrt_drop)
  then show ?thesis using lo hi by (fastforce simp: sorted_append dest: less_imp_le)
qed

lemma Contains_in_range:
  assumes "sorted (nodes m)" and "\<exists>y \<in> set (nodes m). x \<le> y"
  shows "Contains m x = Inr (x \<in> set (nodes m))"
proof -
  let ?pos = "SearchStrings (nodes m) x"
  have pl: "?pos < length (nodes m)"
  proof (rule ccontr)
    assume "\<not> ?pos < length (nodes m)"
    then have "?pos = length (nodes m)" using SearchStrings_le [of "nodes m" x] by simp
    then have "\<forall>k < length (nodes m). nodes m ! k < x"
      using SearchStrings_less [OF assms(1)] by simp
    then have "\<forall>y \<in> set (nodes m). y < x" by (auto simp: in_set_conv_nth)
    with assms(2) show False by (meson not_le)
  qed
  then show ?thesis using SearchStrings_found [OF assms(1), of x] by (simp add: Contains_def)
qed

lemma inst_full_built:
  "NewMaglev [''b'', ''c''] 2 hash_sum hash_mix = Some (Inr (Inr inst_full))"
proof -
  have p: "is_prime (unat (2 :: u64))" by code_simp
  have s: "sort [''b'', ''c''] = [''b'', ''c'']" by code_simp
  define m0 where "m0 = \<lparr>permutations = None, lookup = [], nodes = [''b'', ''c''],
                    numPartitions = 2, h1 = hash_sum, h2 = hash_mix\<rparr>"
  have gb: "generatePermutationsForNode m0 ''b'' = Inr [0, 1]"
    unfolding m0_def by code_simp
  have gc: "generatePermutationsForNode m0 ''c'' = Inr [1, 0]"
    unfolding m0_def by code_simp
  have m1: "m0\<lparr>permutations := permutations inst_full\<rparr> = inst_full\<lparr>lookup := []\<rparr>"
    by (simp add: m0_def inst_full_def)
  have g: "generatePermutations m0 = Inr (inst_full\<lparr>lookup := []\<rparr>)"
    unfolding m1 [symmetric]
    using gb gc by (simp add: generatePermutations_def inst_full_def) (simp add: m0_def)
  have "map_option (map_sum id lookup) (populateLookup (inst_full\<lparr>lookup := []\<rparr>))
             = Some (Inr (lookup inst_full))"
    by code_simp
  then have "populateLookup (inst_full\<lparr>lookup := []\<rparr>) = Some (Inr inst_full)"
    using populateLookup_eval by fastforce
  then show ?thesis using p s g by (simp add: NewMaglev_def m0_def [symmetric])
qed

lemma inst_a_built:
  "NewMaglev [''a''] 7 hash_sum hash_mix = Some (Inr (Inr inst_a))"
proof -
  have p: "is_prime (unat (7 :: u64))" by code_simp
  have s: "sort [''a''] = [''a'']" by code_simp
  define m0 where "m0 = \<lparr>permutations = None, lookup = [], nodes = [''a''],
                    numPartitions = 7, h1 = hash_sum, h2 = hash_mix\<rparr>"
  have ga: "generatePermutationsForNode m0 ''a'' = Inr [6, 4, 2, 0, 5, 3, 1]"
    unfolding m0_def by code_simp
  have m1: "m0\<lparr>permutations := permutations inst_a\<rparr> = inst_a\<lparr>lookup := []\<rparr>"
    by (simp add: m0_def inst_a_def)
  have g: "generatePermutations m0 = Inr (inst_a\<lparr>lookup := []\<rparr>)"
    unfolding m1 [symmetric]
    using ga by (simp add: generatePermutations_def inst_a_def) (simp add: m0_def)
  have "map_option (map_sum id lookup) (populateLookup (inst_a\<lparr>lookup := []\<rparr>))
             = Some (Inr (lookup inst_a))"
    by code_simp
  then have "populateLookup (inst_a\<lparr>lookup := []\<rparr>) = Some (Inr inst_a)"
    using populateLookup_eval by fastforce
  then show ?thesis using p s g by (simp add: NewMaglev_def m0_def [symmetric])
qed

lemma inst_wrap_built:
  "NewMaglev [] 4630511617 (\<lambda>node. 0) (\<lambda>node. 4630511615) = Some (Inr (Inr inst_wrap))"
proof -
  have "unat (4630511617 :: u64) = 4630511617" by simp
  then show ?thesis using prime_4630511617 by (simp add: NewMaglev_def inst_wrap_def)
qed

section \<open>Instances built through the interface\<close>

text \<open>
  The constructor establishes \<open>instance_ok\<close> (for distinct node names and at most \<open>2^32\<close>
  partitions), and \<open>Add\<close> and \<open>Remove\<close> keep it whenever they return. \<open>Remove\<close> of all
  members, each once, returns the empty-membership error; \<open>Add\<close> returns whenever no
  candidate sorts after every member.
\<close>

lemma generatePermutations_loop_ok:
  assumes pr: "is_prime (unat (numPartitions m))" and small: "unat (numPartitions m) \<le> 2 ^ 32"
  shows "\<exists>pm'. generatePermutations_loop m pm ns = Inr pm'
           \<and> (\<forall>ID \<in> set ns. \<exists>perm. pm' ID = Some perm
                  \<and> perm_ok (unat (numPartitions m)) perm)
           \<and> (\<forall>ID. ID \<notin> set ns \<longrightarrow> pm' ID = pm ID)"
proof (induction ns arbitrary: pm)
  case Nil
  then show ?case by simp
next
  case (Cons node rest)
  from generatePermutationsForNode_ok [OF pr small, of node]
  obtain perm where perm: "generatePermutationsForNode m node = Inr perm"
    "perm_ok (unat (numPartitions m)) perm" by blast
  from Cons.IH [of "pm(node \<mapsto> perm)"]
  obtain pm' where pm': "generatePermutations_loop m (pm(node \<mapsto> perm)) rest = Inr pm'"
    "\<forall>ID \<in> set rest. \<exists>perm. pm' ID = Some perm \<and> perm_ok (unat (numPartitions m)) perm"
    "\<forall>ID. ID \<notin> set rest \<longrightarrow> pm' ID = (pm(node \<mapsto> perm)) ID"
    by blast
  have "generatePermutations_loop m pm (node # rest) = Inr pm'" using perm(1) pm'(1) by simp
  moreover have "\<exists>q. pm' ID = Some q \<and> perm_ok (unat (numPartitions m)) q"
    if "ID \<in> set (node # rest)" for ID
  proof (cases "ID \<in> set rest")
    case True
    then show ?thesis using pm'(2) by blast
  next
    case False
    then have "ID = node" using that by simp
    then show ?thesis using pm'(3) False perm(2) by simp
  qed
  moreover have "pm' ID = pm ID" if "ID \<notin> set (node # rest)" for ID
    using pm'(3) that by simp
  ultimately show ?case by blast
qed

lemma NewMaglev_builds:
  assumes pr: "is_prime (unat p)" and small: "unat p \<le> 2 ^ 32" and ne: "ns \<noteq> []"
  shows "\<exists>m. NewMaglev ns p hash1 hash2 = Some (Inr (Inr m))
           \<and> nodes m = sort ns \<and> numPartitions m = p \<and> perms_ok m
           \<and> length (lookup m) = unat p
           \<and> set (lookup m) \<subseteq> insert [] (set ns)
           \<and> (\<forall>ID. count_list (lookup m) ID = steps_by m ID (unat p))"
proof -
  define m0 where "m0 = \<lparr>permutations = None, lookup = [], nodes = sort ns,
                    numPartitions = p, h1 = hash1, h2 = hash2\<rparr>"
  have np: "numPartitions m0 = p" and n0: "nodes m0 = sort ns" by (simp_all add: m0_def)
  from generatePermutations_loop_ok [of m0 Map.empty "sort ns"] pr small np
  obtain pm where pm: "generatePermutations_loop m0 Map.empty (sort ns) = Inr pm"
    "\<forall>ID \<in> set (sort ns). \<exists>perm. pm ID = Some perm \<and> perm_ok (unat p) perm"
    by auto
  define m1 where "m1 = m0\<lparr>permutations := Some pm\<rparr>"
  have g: "generatePermutations m0 = Inr m1"
    using pm(1) by (simp add: generatePermutations_def n0 m1_def)
  have po: "perms_ok m1"
    unfolding perms_ok_def
  proof
    fix ID assume "ID \<in> set (nodes m1)"
    then have "ID \<in> set (sort ns)" by (simp add: m1_def m0_def)
    then obtain perm where "pm ID = Some perm" "perm_ok (unat p) perm" using pm(2) by blast
    then show "perm_ok (unat (numPartitions m1)) (perm_of m1 ID)"
      by (simp add: perm_of_def m1_def m0_def)
  qed
  have "length (sort ns) = length ns" by simp
  then have "sort ns \<noteq> []" using ne by (metis length_0_conv)
  then have ne1: "nodes m1 \<noteq> []" by (simp add: m1_def m0_def)
  have p0: "numPartitions m1 \<noteq> 0" using pr by (auto simp: is_prime_def m1_def m0_def)
  from populateLookup_counts [OF po ne1 p0]
  obtain tab where tab: "populateLookup m1 = Some (Inr (m1\<lparr>lookup := tab\<rparr>))"
    "length tab = unat (numPartitions m1)" "set tab \<subseteq> insert [] (set (nodes m1))"
    "\<forall>ID. count_list tab ID = steps_by m1 ID (unat (numPartitions m1))"
    by blast
  have "NewMaglev ns p hash1 hash2 = Some (Inr (Inr (m1\<lparr>lookup := tab\<rparr>)))"
    using pr ne g tab(1) by (simp add: NewMaglev_def m0_def [symmetric])
  moreover have "perms_ok (m1\<lparr>lookup := tab\<rparr>)"
    using po by (simp add: perms_ok_def perm_of_frame)
  moreover have "steps_by (m1\<lparr>lookup := tab\<rparr>) ID t = steps_by m1 ID t" for ID t
    by (simp add: steps_by_def)
  ultimately show ?thesis
    using tab(2,3,4) by (intro exI [of _ "m1\<lparr>lookup := tab\<rparr>"]) (simp add: m1_def m0_def)
qed

lemma remove_loop_step:
  assumes "remove_loop m n (node # rest) = Inr r"
  shows "SearchStrings (nodes m) node < length (nodes m)"
    and "nodes m ! SearchStrings (nodes m) node \<noteq> node \<Longrightarrow> remove_loop m n rest = Inr r"
    and "nodes m ! SearchStrings (nodes m) node = node \<Longrightarrow>
      remove_loop (m\<lparr>nodes := take (SearchStrings (nodes m) node) (nodes m)
                             @ drop (SearchStrings (nodes m) node + 1) (nodes m),
                   permutations := map_option (\<lambda>pm. pm(node := None)) (permutations m)\<rparr>)
        (n + 1) rest = Inr r"
proof -
  let ?pos = "SearchStrings (nodes m) node"
  show pl: "?pos < length (nodes m)"
    using assms(1) by (cases "?pos < length (nodes m)") (simp_all add: Let_def)
  show "remove_loop m n rest = Inr r" if "nodes m ! ?pos \<noteq> node"
    using assms(1) pl that by (simp add: Let_def)
  show "remove_loop (m\<lparr>nodes := take ?pos (nodes m) @ drop (?pos + 1) (nodes m),
                   permutations := map_option (\<lambda>pm. pm(node := None)) (permutations m)\<rparr>)
        (n + 1) rest = Inr r" if "nodes m ! ?pos = node"
    using assms(1) pl that by (simp add: Let_def)
qed

lemma set_delete_at:
  assumes "distinct xs" "pos < length xs"
  shows "set (take pos xs @ drop (pos + 1) xs) = set xs - {xs ! pos}"
    and "distinct (take pos xs @ drop (pos + 1) xs)"
proof -
  have xs: "xs = take pos xs @ xs ! pos # drop (pos + 1) xs"
    using assms(2) by (simp add: id_take_nth_drop)
  then have d: "distinct (take pos xs @ xs ! pos # drop (pos + 1) xs)" using assms(1) by simp
  then show "distinct (take pos xs @ drop (pos + 1) xs)" by simp
  have "xs ! pos \<notin> set (take pos xs) \<union> set (drop (pos + 1) xs)" using d by auto
  moreover have "set xs = set (take pos xs) \<union> {xs ! pos} \<union> set (drop (pos + 1) xs)"
    by (subst xs) auto
  ultimately show "set (take pos xs @ drop (pos + 1) xs) = set xs - {xs ! pos}" by auto
qed

lemma sorted_delete_at:
  assumes "sorted xs"
  shows "sorted (take pos xs @ drop (pos + 1) xs)"
proof (cases "pos < length xs")
  case False
  then show ?thesis using assms by simp
next
  case True
  then have "xs = take pos xs @ xs ! pos # drop (pos + 1) xs"
    by (simp add: id_take_nth_drop)
  then have "sorted (take pos xs @ xs ! pos # drop (pos + 1) xs)" using assms by simp
  then show ?thesis by (auto simp: sorted_append)
qed

lemma remove_loop_inv:
  "sorted (nodes m) \<Longrightarrow> distinct (nodes m) \<Longrightarrow> perms_ok m \<Longrightarrow>
   remove_loop m n ns = Inr (m1, k) \<Longrightarrow>
     sorted (nodes m1) \<and> distinct (nodes m1) \<and> perms_ok m1
     \<and> set (nodes m1) = set (nodes m) - set ns"
proof (induction ns arbitrary: m n)
  case Nil
  then show ?case by simp
next
  case (Cons node rest)
  let ?pos = "SearchStrings (nodes m) node"
  note st = remove_loop_step [OF Cons.prems(4)]
  show ?case
  proof (cases "nodes m ! ?pos = node")
    case False
    have "node \<notin> set (nodes m)"
      using SearchStrings_found [OF Cons.prems(1), of node] False by blast
    then show ?thesis using Cons.IH [OF Cons.prems(1,2,3) st(2) [OF False]] by auto
  next
    case True
    define m' where "m' = m\<lparr>nodes := take ?pos (nodes m) @ drop (?pos + 1) (nodes m),
                   permutations := map_option (\<lambda>pm. pm(node := None)) (permutations m)\<rparr>"
    have r: "remove_loop m' (n + 1) rest = Inr (m1, k)" using st(3) [OF True] by (simp add: m'_def)
    have set': "set (nodes m') = set (nodes m) - {node}" and dist': "distinct (nodes m')"
      using set_delete_at [OF Cons.prems(2) st(1)] True by (simp_all add: m'_def)
    have srt': "sorted (nodes m')" using sorted_delete_at [OF Cons.prems(1)] by (simp add: m'_def)
    have "perms_ok m'"
      unfolding perms_ok_def
    proof
      fix ID assume "ID \<in> set (nodes m')"
      then have ID: "ID \<in> set (nodes m)" "ID \<noteq> node" using set' by auto
      then have "perm_of m' ID = perm_of m ID"
        by (cases "permutations m") (simp_all add: perm_of_def m'_def)
      then show "perm_ok (unat (numPartitions m')) (perm_of m' ID)"
        using Cons.prems(3) ID(1) by (simp add: perms_ok_def m'_def)
    qed
    from Cons.IH [OF srt' dist' this r] set' show ?thesis by auto
  qed
qed

lemma add_loop_sorted:
  "sorted (nodes m) \<Longrightarrow> distinct (nodes m) \<Longrightarrow> add_loop m n ns = Inr (m1, k) \<Longrightarrow>
     sorted (nodes m1) \<and> distinct (nodes m1)"
proof (induction ns arbitrary: m n)
  case Nil
  then show ?case by simp
next
  case (Cons node rest)
  let ?pos = "SearchStrings (nodes m) node"
  note st = add_loop_step [OF Cons.prems(3)]
  show ?case
  proof (cases "nodes m ! ?pos = node")
    case True
    then show ?thesis using Cons.IH [OF Cons.prems(1,2) st(2)] by blast
  next
    case False
    from st(3) [OF False] obtain perm pm where
      r: "add_loop (m\<lparr>nodes := take ?pos (nodes m) @ [node] @ drop ?pos (nodes m),
                        permutations := Some (pm(node \<mapsto> perm))\<rparr>) (n + 1) rest = Inr (m1, k)"
      by blast
    have new: "node \<notin> set (nodes m)"
      using SearchStrings_found [OF Cons.prems(1), of node] False by blast
    have "distinct (take ?pos (nodes m) @ drop ?pos (nodes m))"
      using Cons.prems(2) by (simp only: append_take_drop_id)
    then have "distinct (take ?pos (nodes m)) \<and> distinct (drop ?pos (nodes m))
        \<and> set (take ?pos (nodes m)) \<inter> set (drop ?pos (nodes m)) = {}"
      by (simp only: distinct_append)
    moreover have "node \<notin> set (take ?pos (nodes m))" "node \<notin> set (drop ?pos (nodes m))"
      using new by (auto dest: in_set_takeD in_set_dropD)
    ultimately have d: "distinct (take ?pos (nodes m) @ [node] @ drop ?pos (nodes m))"
      by auto
    have s: "sorted (take ?pos (nodes m) @ [node] @ drop ?pos (nodes m))"
      using sorted_insert_at [OF Cons.prems(1)] .
    show ?thesis using Cons.IH [OF _ _ r] s d by simp
  qed
qed

lemma populateLookup_shape:
  "populateLookup m = Some (Inr m') \<Longrightarrow> m' = m\<lparr>lookup := lookup m'\<rparr>"
  by (cases "fill_loop m \<lparr>table = replicate (unat (numPartitions m)) [],
                          nxt = replicate (length (nodes m)) 0, filled = 0\<rparr>")
     (auto simp: populateLookup_def split: if_splits sum.splits)

lemma instance_ok_frame: "instance_ok (m\<lparr>lookup := l\<rparr>) = instance_ok m"
  by (simp add: instance_ok_def perms_ok_def perm_of_frame)

lemma NewMaglev_instance_ok:
  assumes "distinct ns" and "unat p \<le> 2 ^ 32"
    and "NewMaglev ns p hash1 hash2 = Some (Inr (Inr m))"
  shows "instance_ok m"
proof -
  have pr: "is_prime (unat p)"
    using assms(3) by (cases "is_prime (unat p)") (simp_all add: NewMaglev_def)
  show ?thesis
  proof (cases "ns = []")
    case True
    then have "m = \<lparr>permutations = None, lookup = [], nodes = [],
                    numPartitions = p, h1 = hash1, h2 = hash2\<rparr>"
      using assms(3) pr by (simp add: NewMaglev_def)
    then show ?thesis using pr assms(2) by (simp add: instance_ok_def perms_ok_def)
  next
    case False
    from NewMaglev_builds [OF pr assms(2) False, of hash1 hash2] assms(3)
    have "nodes m = sort ns" "numPartitions m = p" "perms_ok m" by auto
    then show ?thesis using pr assms(1,2) by (simp add: instance_ok_def)
  qed
qed

lemma Add_instance_ok:
  assumes "instance_ok m" and "Add m ns = Some (Inr (m', k, e))"
  shows "instance_ok m'"
proof -
  obtain m1 k1 where a: "add_loop m 0 ns = Inr (m1, k1)"
    using assms(2) by (cases "add_loop m 0 ns") (auto simp: Add_def)
  then obtain m2 where p: "populateLookup m1 = Some (Inr m2)" and m': "m' = m2"
    using assms(2)
    by (cases "populateLookup m1") (auto simp: Add_def split: sum.splits if_splits)
  have np: "numPartitions m1 = numPartitions m" using add_loop_frame [OF a] by simp
  have "perms_ok m1" using add_loop_perms_ok [OF _ _ _ a] assms(1) by (simp add: instance_ok_def)
  moreover have "sorted (nodes m1) \<and> distinct (nodes m1)"
    using add_loop_sorted [OF _ _ a] assms(1) by (simp add: instance_ok_def)
  ultimately have "instance_ok m1" using assms(1) np by (simp add: instance_ok_def)
  then show ?thesis using populateLookup_shape [OF p] m' instance_ok_frame by metis
qed

lemma Remove_instance_ok:
  assumes "instance_ok m" and "Remove m ns = Some (Inr (m', k, e))"
  shows "instance_ok m'"
proof -
  obtain m1 k1 where a: "remove_loop m 0 ns = Inr (m1, k1)"
    using assms(2) by (cases "remove_loop m 0 ns") (auto simp: Remove_def)
  have np: "numPartitions m1 = numPartitions m" using remove_loop_frame [OF a] by simp
  have "sorted (nodes m1) \<and> distinct (nodes m1) \<and> perms_ok m1"
    using remove_loop_inv [OF _ _ _ a] assms(1) by (simp add: instance_ok_def)
  then have ok1: "instance_ok m1" using assms(1) np by (simp add: instance_ok_def)
  show ?thesis
  proof (cases "length (nodes m1) = 0")
    case True
    then have "m' = m1" using assms(2) a by (simp add: Remove_def)
    then show ?thesis using ok1 by simp
  next
    case False
    then obtain m2 where p: "populateLookup m1 = Some (Inr m2)" and m': "m' = m2"
      using assms(2) a
      by (cases "populateLookup m1") (auto simp: Remove_def split: sum.splits)
    show ?thesis using populateLookup_shape [OF p] m' instance_ok_frame ok1 by metis
  qed
qed

lemma remove_loop_members:
  "sorted (nodes m) \<Longrightarrow> distinct (nodes m) \<Longrightarrow> distinct ns \<Longrightarrow> set ns \<subseteq> set (nodes m) \<Longrightarrow>
     \<exists>m1. remove_loop m n ns = Inr (m1, n + length ns)
       \<and> set (nodes m1) = set (nodes m) - set ns"
proof (induction ns arbitrary: m n)
  case Nil
  then show ?case by simp
next
  case (Cons node rest)
  let ?pos = "SearchStrings (nodes m) node"
  have f: "?pos < length (nodes m)" "nodes m ! ?pos = node"
    using SearchStrings_found [OF Cons.prems(1), of node] Cons.prems(4) by simp_all
  define m' where "m' = m\<lparr>nodes := take ?pos (nodes m) @ drop (?pos + 1) (nodes m),
                   permutations := map_option (\<lambda>pm. pm(node := None)) (permutations m)\<rparr>"
  have step: "remove_loop m n (node # rest) = remove_loop m' (n + 1) rest"
    using f by (simp add: Let_def m'_def)
  have set': "set (nodes m') = set (nodes m) - {node}" and dist': "distinct (nodes m')"
    using set_delete_at [OF Cons.prems(2) f(1)] f(2) by (simp_all add: m'_def)
  have srt': "sorted (nodes m')" using sorted_delete_at [OF Cons.prems(1)] by (simp add: m'_def)
  have "distinct rest" "set rest \<subseteq> set (nodes m')" using Cons.prems(3,4) set' by auto
  from Cons.IH [OF srt' dist' this, of "n + 1"] step set' show ?case by auto
qed

lemma Remove_all:
  assumes "sorted (nodes m)" "distinct (nodes m)" "distinct ns" "set ns = set (nodes m)"
  shows "\<exists>m1. Remove m ns = Some (Inr (m1, length ns, Some EmptyMembership))
           \<and> nodes m1 = [] \<and> lookup m1 = lookup m"
proof -
  from remove_loop_members [OF assms(1,2,3), of 0] assms(4)
  obtain m1 where m1: "remove_loop m 0 ns = Inr (m1, length ns)" "nodes m1 = []" by auto
  then show ?thesis using remove_loop_frame [OF m1(1)] by (simp add: Remove_def)
qed

lemma add_loop_returns:
  "is_prime (unat (numPartitions m)) \<Longrightarrow> unat (numPartitions m) \<le> 2 ^ 32 \<Longrightarrow>
   sorted (nodes m) \<Longrightarrow> perms_ok m \<Longrightarrow> \<forall>x \<in> set ns. \<exists>y \<in> set (nodes m). x \<le> y \<Longrightarrow>
     \<exists>m1 k. add_loop m n ns = Inr (m1, k)"
proof (induction ns arbitrary: m n)
  case Nil
  then show ?case by simp
next
  case (Cons node rest)
  let ?pos = "SearchStrings (nodes m) node"
  have pl: "?pos < length (nodes m)"
  proof (rule ccontr)
    assume "\<not> ?pos < length (nodes m)"
    then have "?pos = length (nodes m)" using SearchStrings_le [of "nodes m" node] by simp
    then have "\<forall>k < length (nodes m). nodes m ! k < node"
      using SearchStrings_less [OF Cons.prems(3)] by simp
    then have "\<forall>y \<in> set (nodes m). y < node" by (auto simp: in_set_conv_nth)
    with Cons.prems(5) show False by (metis list.set_intros(1) not_le)
  qed
  show ?case
  proof (cases "nodes m ! ?pos = node")
    case True
    have "\<forall>x \<in> set rest. \<exists>y \<in> set (nodes m). x \<le> y" using Cons.prems(5) by simp
    from Cons.IH [OF Cons.prems(1,2,3,4) this, of n] True pl show ?thesis
      by (simp add: Let_def)
  next
    case False
    obtain perm where perm: "generatePermutationsForNode m node = Inr perm"
      "perm_ok (unat (numPartitions m)) perm"
      using generatePermutationsForNode_ok [OF Cons.prems(1,2), of node] by blast
    have "nodes m ! ?pos \<in> set (nodes m)" using pl by simp
    then have "perm_ok (unat (numPartitions m)) (perm_of m (nodes m ! ?pos))"
      using Cons.prems(4) by (simp add: perms_ok_def)
    moreover have "0 < unat (numPartitions m)" using Cons.prems(1) by (simp add: is_prime_def)
    ultimately have "perm_of m (nodes m ! ?pos) \<noteq> []" by (auto simp: perm_ok_def)
    then obtain pm where pm: "permutations m = Some pm"
      by (cases "permutations m") (simp_all add: perm_of_def)
    define m' where "m' = m\<lparr>nodes := take ?pos (nodes m) @ [node] @ drop ?pos (nodes m),
                        permutations := Some (pm(node \<mapsto> perm))\<rparr>"
    have step: "add_loop m n (node # rest) = add_loop m' (n + 1) rest"
      using pl False perm(1) pm by (simp add: Let_def generatePermutationsForNode_frame m'_def)
    have a1: "add_loop m 0 [node] = Inr (m', 1)"
      using pl False perm(1) pm by (simp add: Let_def generatePermutationsForNode_frame m'_def)
    have po': "perms_ok m'" using add_loop_perms_ok [OF Cons.prems(1,2,4) a1] .
    have np: "numPartitions m' = numPartitions m" by (simp add: m'_def)
    have srt': "sorted (nodes m')"
      using sorted_insert_at [OF Cons.prems(3), of node] by (simp add: m'_def)
    have "set (nodes m) \<subseteq> set (nodes m')"
      using set_insert_at [of ?pos "nodes m" node] by (auto simp: m'_def)
    moreover have "\<forall>x \<in> set rest. \<exists>y \<in> set (nodes m). x \<le> y" using Cons.prems(5) by simp
    ultimately have "\<forall>x \<in> set rest. \<exists>y \<in> set (nodes m'). x \<le> y" by blast
    from Cons.IH [OF _ _ srt' po' this, of "n + 1"] Cons.prems(1,2) np step
    show ?thesis by simp
  qed
qed

lemma Add_returns:
  assumes "instance_ok m" and "nodes m \<noteq> []"
    and "\<forall>x \<in> set ns. \<exists>y \<in> set (nodes m). x \<le> y"
  shows "\<exists>m' k e. Add m ns = Some (Inr (m', k, e))"
proof -
  have ok: "is_prime (unat (numPartitions m))" "unat (numPartitions m) \<le> 2 ^ 32"
    "sorted (nodes m)" "perms_ok m"
    using assms(1) by (simp_all add: instance_ok_def)
  from add_loop_returns [OF ok assms(3), of 0]
  obtain m1 k where a: "add_loop m 0 ns = Inr (m1, k)" by blast
  have po: "perms_ok m1" using add_loop_perms_ok [OF ok(1,2,4) a] .
  have fr: "numPartitions m1 = numPartitions m" "set (nodes m1) = set (nodes m) \<union> set ns"
    using add_loop_frame [OF a] by simp_all
  have ne: "nodes m1 \<noteq> []" using fr(2) assms(2) by auto
  have p0: "numPartitions m1 \<noteq> 0" using ok(1) fr(1) by (auto simp: is_prime_def)
  from populateLookup_counts [OF po ne p0]
  obtain tab where "populateLookup m1 = Some (Inr (m1\<lparr>lookup := tab\<rparr>))" by blast
  then show ?thesis using a by (simp add: Add_def)
qed

section \<open>Error returns of the membership operations\<close>

text \<open>
  A candidate loop that has come through a prefix of the candidates goes on from the
  state it has reached.
\<close>

lemma remove_loop_append:
  "remove_loop m n pre = Inr (m1, k) \<Longrightarrow> remove_loop m n (pre @ ns) = remove_loop m1 k ns"
proof (induction pre arbitrary: m n)
  case Nil
  then show ?case by simp
next
  case (Cons node rest)
  then show ?case by (auto simp: Let_def split: if_splits)
qed

lemma add_loop_append:
  "add_loop m n pre = Inr (m1, k) \<Longrightarrow> add_loop m n (pre @ ns) = add_loop m1 k ns"
proof (induction pre arbitrary: m n)
  case Nil
  then show ?case by simp
next
  case (Cons node rest)
  let ?pos = "SearchStrings (nodes m) node"
  note st = add_loop_step [OF Cons.prems]
  show ?case
  proof (cases "nodes m ! ?pos = node")
    case True
    have "add_loop m n ((node # rest) @ ns) = add_loop m n (rest @ ns)"
      using st(1) True by (simp add: Let_def)
    with Cons.IH [OF st(2) [OF True]] show ?thesis by simp
  next
    case False
    from st(3) [OF False] obtain perm pm where
      g: "generatePermutationsForNode m node = Inr perm" and pm: "permutations m = Some pm" and
      r: "add_loop (m\<lparr>nodes := take ?pos (nodes m) @ [node] @ drop ?pos (nodes m),
                        permutations := Some (pm(node \<mapsto> perm))\<rparr>) (n + 1) rest = Inr (m1, k)"
      by blast
    have "add_loop m n ((node # rest) @ ns)
        = add_loop (m\<lparr>nodes := take ?pos (nodes m) @ [node] @ drop ?pos (nodes m),
                        permutations := Some (pm(node \<mapsto> perm))\<rparr>) (n + 1) (rest @ ns)"
      using st(1) False g pm by (simp add: Let_def generatePermutationsForNode_frame)
    with Cons.IH [OF r] show ?thesis by simp
  qed
qed

text \<open>
  When the candidate loop of \<open>Remove\<close> ends with no node left, \<open>Remove\<close> returns the
  empty-membership error with the removal count and does not rebuild the table: the table
  after the call is the table before it, and \<open>Lookup\<close> gives the same result for every
  key.
\<close>

lemma Remove_to_empty:
  assumes "remove_loop m 0 ns = Inr (m1, n)" and "nodes m1 = []"
  shows "Remove m ns = Some (Inr (m1, n, Some EmptyMembership))
         \<and> lookup m1 = lookup m \<and> (\<forall>key. Lookup m1 key = Lookup m key)"
proof -
  have fr: "lookup m1 = lookup m" "numPartitions m1 = numPartitions m"
    using remove_loop_frame [OF assms(1)] by simp_all
  have "Remove m ns = Some (Inr (m1, n, Some EmptyMembership))"
    using assms by (simp add: Remove_def)
  moreover have "Lookup m1 key = Lookup m key" for key
    using fr by (simp add: Lookup_def PartitionID_def)
  ultimately show ?thesis using fr by simp
qed

text \<open>
  When the candidate loop of \<open>Add\<close> ends with more nodes than partitions (and the cached
  permutations are permutations), \<open>Add\<close> returns the capacity error together with the
  mutated instance: its table is the one \<open>populateLookup\<close> builds over the enlarged node
  list, \<open>Size\<close> is the enlarged count, above \<open>Partitions\<close>, and every candidate is in
  the node list.
\<close>

lemma Add_over_capacity:
  assumes "add_loop m 0 ns = Inr (m1, k)"
    and "unat (numPartitions m1) < length (nodes m1)"
    and "perms_ok m1" and "numPartitions m1 \<noteq> 0"
  shows "\<exists>tab. populateLookup m1 = Some (Inr (m1\<lparr>lookup := tab\<rparr>))
           \<and> Add m ns = Some (Inr (m1\<lparr>lookup := tab\<rparr>, k, Some CapacityExceeded))
           \<and> Size (m1\<lparr>lookup := tab\<rparr>) = length (nodes m) + k
           \<and> unat (Partitions (m1\<lparr>lookup := tab\<rparr>)) < Size (m1\<lparr>lookup := tab\<rparr>)
           \<and> set ns \<subseteq> set (nodes (m1\<lparr>lookup := tab\<rparr>))
           \<and> length tab = unat (numPartitions m1)
           \<and> set tab \<subseteq> insert [] (set (nodes m1))
           \<and> (\<forall>ID. count_list tab ID = steps_by m1 ID (unat (numPartitions m1)))"
proof -
  have ne: "nodes m1 \<noteq> []" using assms(2) by auto
  from populateLookup_counts [OF assms(3) ne assms(4)]
  obtain tab where tab: "populateLookup m1 = Some (Inr (m1\<lparr>lookup := tab\<rparr>))"
    "length tab = unat (numPartitions m1)" "set tab \<subseteq> insert [] (set (nodes m1))"
    "\<forall>ID. count_list tab ID = steps_by m1 ID (unat (numPartitions m1))"
    by blast
  have fr: "set (nodes m1) = set (nodes m) \<union> set ns" "length (nodes m1) = length (nodes m) + k"
    using add_loop_frame [OF assms(1)] by simp_all
  have "Add m ns = Some (Inr (m1\<lparr>lookup := tab\<rparr>, k, Some CapacityExceeded))"
    using assms(1,2) tab(1) by (simp add: Add_def)
  then show ?thesis
    using tab fr assms(2) by (intro exI [of _ tab]) (simp add: Size_def Partitions_def)
qed

section \<open>A prime above \<open>2^63\<close>\<close>

lemma prime_9322451228656926721: "is_prime 9322451228656926721"
proof (rule lucas_powmod [where a = 29])
  show "1 < (9322451228656926721 :: nat)" by simp
  show "powmod 29 (9322451228656926721 - 1) 9322451228656926721 = 1"
    by (simp add: powmod.simps Let_def)
  fix q :: nat assume q: "is_prime q" "q dvd 9322451228656926721 - 1"
  have "(9322451228656926721 :: nat) - 1 = 2 ^ 53 * (3 ^ 2 * (5 * 23))" by simp
  then have "q dvd 2 ^ 53 * (3 ^ 2 * (5 * 23))" using q(2) by simp
  then have "q dvd 2 \<or> q dvd 3 \<or> q dvd 5 \<or> q dvd 23"
    using is_prime_dvd_mult [OF q(1)] is_prime_dvd_power [OF q(1)] by blast
  then consider "q = 2" | "q = 3" | "q = 5" | "q = 23"
    using is_prime_dvd_prime [OF q(1)] small_primes by blast
  then show "powmod 29 ((9322451228656926721 - 1) div q) 9322451228656926721 \<noteq> 1"
  proof cases
    case 1
    show ?thesis unfolding 1 by (simp add: powmod.simps Let_def)
  next
    case 2
    show ?thesis unfolding 2 by (simp add: powmod.simps Let_def)
  next
    case 3
    show ?thesis unfolding 3 by (simp add: powmod.simps Let_def)
  next
    case 4
    show ?thesis unfolding 4 by (simp add: powmod.simps Let_def)
  qed
qed

section \<open>The claims\<close>

text \<open>
  C1, as amended. For every instance whose node list is not empty and does not contain
  the empty string, and whose cached permutations are permutations of the partition
  indices, the table builder returns, and in the table it builds every partition index in
  \<open>[0, numPartitions)\<close> holds a member of the node list; no slot is left empty.
\<close>

theorem C1_every_slot_owned:
  assumes "nodes m \<noteq> []" and "[] \<notin> set (nodes m)" and "perms_ok m"
    and "numPartitions m \<noteq> 0"
  shows "\<exists>tab. populateLookup m = Some (Inr (m\<lparr>lookup := tab\<rparr>))
           \<and> length tab = unat (numPartitions m)
           \<and> (\<forall>c < unat (numPartitions m). tab ! c \<in> set (nodes m))
           \<and> [] \<notin> set tab"
proof -
  from populateLookup_counts [OF assms(3,1,4)]
  obtain tab where tab: "populateLookup m = Some (Inr (m\<lparr>lookup := tab\<rparr>))"
    "length tab = unat (numPartitions m)" "set tab \<subseteq> insert [] (set (nodes m))"
    "\<forall>ID. count_list tab ID = steps_by m ID (unat (numPartitions m))"
    by blast
  have "count_list tab [] = 0" using tab(4) steps_by_absent [OF assms(2,1)] by simp
  then have ne: "[] \<notin> set tab" by (simp add: count_list_0_iff)
  have "tab ! c \<in> set (nodes m)" if "c < unat (numPartitions m)" for c
  proof -
    have "tab ! c \<in> set tab" using that tab(2) by simp
    then show ?thesis using tab(3) ne by auto
  qed
  then show ?thesis using tab(1,2) ne by blast
qed

text \<open>
  Witness for C1: the three-node instance over seven partitions.
\<close>

theorem C1_every_slot_owned_witness:
  "nodes inst_abc \<noteq> [] \<and> [] \<notin> set (nodes inst_abc) \<and> perms_ok inst_abc
   \<and> numPartitions inst_abc \<noteq> 0
   \<and> (\<exists>tab. populateLookup inst_abc = Some (Inr (inst_abc\<lparr>lookup := tab\<rparr>))
         \<and> tab = [''b'', ''c'', ''b'', ''a'', ''a'', ''c'', ''a'']
         \<and> length tab = unat (numPartitions inst_abc)
         \<and> tab ! 0 \<in> set (nodes inst_abc) \<and> tab ! 6 \<in> set (nodes inst_abc)
         \<and> [] \<notin> set tab)"
proof -
  from C1_every_slot_owned [OF inst_abc_ok(1,2,4,5)]
  obtain tab where tab: "populateLookup inst_abc = Some (Inr (inst_abc\<lparr>lookup := tab\<rparr>))"
    "length tab = unat (numPartitions inst_abc)"
    "\<forall>c < unat (numPartitions inst_abc). tab ! c \<in> set (nodes inst_abc)" "[] \<notin> set tab"
    by blast
  have "inst_abc\<lparr>lookup := tab\<rparr> = inst_abc\<lparr>lookup := lookup inst_abc\<rparr>"
    using tab(1) inst_abc_table by simp
  then have "lookup (inst_abc\<lparr>lookup := tab\<rparr>) = lookup (inst_abc\<lparr>lookup := lookup inst_abc\<rparr>)"
    by (rule arg_cong)
  then have t: "tab = [''b'', ''c'', ''b'', ''a'', ''a'', ''c'', ''a'']"
    by (simp add: inst_abc_def)
  have "unat (numPartitions inst_abc) = 7" by (simp add: inst_abc_def)
  then have "tab ! 0 \<in> set (nodes inst_abc)" "tab ! 6 \<in> set (nodes inst_abc)"
    using tab(3) by simp_all
  then show ?thesis using tab(1,2,4) t inst_abc_ok by blast
qed

text \<open>
  C1 as stated fails when the empty string is a node: the constructor builds, from the
  nodes \<open>""\<close> and \<open>c\<close> over three partitions, a table whose slot 2 holds the
  unfilled-slot marker.
\<close>

theorem C1_counterexample:
  "NewMaglev ['''', ''c''] 3 hash_sum hash_mix = Some (Inr (Inr inst_blank))
   \<and> nodes inst_blank \<noteq> [] \<and> length (nodes inst_blank) \<le> unat (numPartitions inst_blank)
   \<and> lookup inst_blank ! 2 = [] \<and> Lookup inst_blank 2 = Inr []"
proof -
  have "nodes inst_blank \<noteq> []" "length (nodes inst_blank) \<le> unat (numPartitions inst_blank)"
    "lookup inst_blank ! 2 = []" "Lookup inst_blank 2 = Inr []"
    by code_simp+
  then show ?thesis using inst_blank_built by simp
qed

text \<open>
  C2 at a failing input. The partition count \<open>4630511617\<close> is a prime above \<open>2^32\<close>;
  with offset 0 and skip \<open>numPartitions - 1\<close> the product \<open>i * skip\<close> wraps around at
  \<open>2^64\<close> for \<open>i = 3983738267\<close> but not for \<open>i = 3690988006\<close>, and both entries of the
  generated sequence are \<open>939523611\<close>: the sequence is not a permutation. (For primes up
  to \<open>2^32\<close> it is one: lemma \<open>generatePermutationsForNode_ok\<close>.)
\<close>

theorem C2_wraps_for_large_prime:
  "is_prime (unat (numPartitions inst_wrap))
   \<and> (\<exists>perm. generatePermutationsForNode inst_wrap node = Inr perm
         \<and> length perm = unat (numPartitions inst_wrap)
         \<and> perm ! 3690988006 = 939523611 \<and> perm ! 3983738267 = 939523611
         \<and> \<not> distinct perm)"
proof -
  define perm :: "u64 list"
    where "perm = map (\<lambda>i. (0 + of_nat i * 4630511616) mod 4630511617) [0..<4630511617]"
  have u: "unat (numPartitions inst_wrap) = 4630511617" by (simp add: inst_wrap_def)
  have g: "generatePermutationsForNode inst_wrap node = Inr perm"
    by (simp add: generatePermutationsForNode_def inst_wrap_def Let_def perm_def)
  have len: "length perm = 4630511617" by (simp add: perm_def)
  have a: "perm ! 3690988006 = 939523611" by (simp add: perm_def)
  have b: "perm ! 3983738267 = 939523611" by (simp add: perm_def)
  have "\<not> distinct perm"
  proof
    assume "distinct perm"
    moreover have "(3690988006 :: nat) < length perm" "(3983738267 :: nat) < length perm"
      by (simp_all add: len)
    ultimately have "(3690988006 :: nat) = 3983738267"
      using a b nth_eq_iff_index_eq [of perm 3690988006 3983738267] by simp
    then show False by simp
  qed
  then show ?thesis using prime_4630511617 u g len a b by simp
qed

text \<open>
  Witness for C2's theorem, at the node \<open>a\<close>.
\<close>

theorem C2_wraps_for_large_prime_witness:
  "\<exists>perm. generatePermutationsForNode inst_wrap ''a'' = Inr perm
     \<and> perm ! 3690988006 = perm ! 3983738267 \<and> \<not> distinct perm"
  using C2_wraps_for_large_prime [of "''a''"] by auto

text \<open>
  C3 at its failing inputs. Once the candidates \<open>pre\<close> of a \<open>Remove\<close> call have emptied
  the node list, the call with these candidates alone returns the empty-membership error,
  but the call with any further candidate reads \<open>nodes[0]\<close> of the empty list and panics
  with an index out of range: no error is returned. (What the call returns when its
  candidate loop comes through is lemma \<open>Remove_to_empty\<close>.)
\<close>

theorem C3_remove_panics_once_empty:
  assumes "remove_loop m 0 pre = Inr (m1, n)" and "nodes m1 = []"
  shows "Remove m pre = Some (Inr (m1, n, Some EmptyMembership))
         \<and> Remove m (pre @ node # rest) = Some (Inl IndexOutOfRange)"
proof -
  have "SearchStrings [] node = 0" using SearchStrings_le [of "[]" node] by simp
  then have "remove_loop m1 n (node # rest) = Inl IndexOutOfRange"
    using assms(2) by (simp add: Let_def)
  then have "remove_loop m 0 (pre @ node # rest) = Inl IndexOutOfRange"
    using remove_loop_append [OF assms(1)] by simp
  then have "Remove m (pre @ node # rest) = Some (Inl IndexOutOfRange)"
    by (simp add: Remove_def)
  then show ?thesis using Remove_to_empty [OF assms] by simp
qed

text \<open>
  Witness for C3's theorem: on the one-node instance \<open>Remove("a")\<close> returns the error and
  \<open>Remove("a", "a")\<close> panics.
\<close>

theorem C3_remove_panics_once_empty_witness:
  "NewMaglev [''a''] 7 hash_sum hash_mix = Some (Inr (Inr inst_a))
   \<and> (\<exists>m1. remove_loop inst_a 0 [''a''] = Inr (m1, 1) \<and> nodes m1 = []
         \<and> Remove inst_a [''a''] = Some (Inr (m1, 1, Some EmptyMembership)))
   \<and> Remove inst_a [''a'', ''a''] = Some (Inl IndexOutOfRange)"
proof -
  have s: "SearchStrings [''a''] ''a'' = 0" by code_simp
  have "\<exists>m1. remove_loop inst_a 0 [''a''] = Inr (m1, 1) \<and> nodes m1 = []"
    by (simp add: inst_a_def s)
  then obtain m1 where m1: "remove_loop inst_a 0 [''a''] = Inr (m1, 1)" "nodes m1 = []"
    by blast
  from C3_remove_panics_once_empty [OF m1, of "''a''" "[]"] m1 inst_a_built
  show ?thesis by auto
qed

text \<open>
  C4 at its failing inputs. Once the candidates \<open>pre\<close> of an \<open>Add\<close> call have raised the
  node count above the partition count, the call with these candidates alone returns the
  capacity error, but the call with a further candidate that sorts after every node reads
  \<open>nodes[len(nodes)]\<close> and panics with an index out of range: no error is returned and the
  table is not rebuilt. (What the call returns when its candidate loop comes through is
  lemma \<open>Add_over_capacity\<close>.)
\<close>

theorem C4_add_panics_over_capacity:
  assumes "add_loop m 0 pre = Inr (m1, k)"
    and "unat (numPartitions m1) < length (nodes m1)"
    and "perms_ok m1" and "numPartitions m1 \<noteq> 0"
    and "\<forall>y \<in> set (nodes m1). y < node"
  shows "(\<exists>tab. Add m pre = Some (Inr (m1\<lparr>lookup := tab\<rparr>, k, Some CapacityExceeded)))
         \<and> Add m (pre @ node # rest) = Some (Inl IndexOutOfRange)"
proof -
  have "SearchStrings (nodes m1) node = length (nodes m1)"
    using SearchStrings_after_all [OF assms(5)] .
  then have "add_loop m1 k (node # rest) = Inl IndexOutOfRange"
    by (simp add: Let_def)
  then have "add_loop m 0 (pre @ node # rest) = Inl IndexOutOfRange"
    using add_loop_append [OF assms(1)] by simp
  then have "Add m (pre @ node # rest) = Some (Inl IndexOutOfRange)"
    by (simp add: Add_def)
  moreover from Add_over_capacity [OF assms(1-4)]
  have "\<exists>tab. Add m pre = Some (Inr (m1\<lparr>lookup := tab\<rparr>, k, Some CapacityExceeded))"
    by blast
  ultimately show ?thesis by simp
qed

text \<open>
  Witness for C4's theorem: on the two-node instance over two partitions \<open>Add("a")\<close>
  returns the capacity error and \<open>Add("a", "d")\<close> panics with three nodes in the list.
\<close>

theorem C4_add_panics_over_capacity_witness:
  "NewMaglev [''b'', ''c''] 2 hash_sum hash_mix = Some (Inr (Inr inst_full))
   \<and> (\<exists>m1. add_loop inst_full 0 [''a''] = Inr (m1, 1)
         \<and> nodes m1 = [''a'', ''b'', ''c''] \<and> unat (numPartitions m1) = 2
         \<and> perms_ok m1
         \<and> (\<exists>tab. Add inst_full [''a'']
                    = Some (Inr (m1\<lparr>lookup := tab\<rparr>, 1, Some CapacityExceeded))))
   \<and> Add inst_full [''a'', ''d''] = Some (Inl IndexOutOfRange)"
proof -
  have s: "SearchStrings [''b'', ''c''] ''a'' = 0" by code_simp
  have g: "generatePermutationsForNode inst_full ''a'' = Inr [1, 0]" by code_simp
  have n: "nodes inst_full = [''b'', ''c'']" "numPartitions inst_full = 2"
    "permutations inst_full = Some (Map.empty(''b'' \<mapsto> [0, 1], ''c'' \<mapsto> [1, 0]))"
    by (simp_all add: inst_full_def)
  define m1 where "m1 = inst_full\<lparr>nodes := [''a'', ''b'', ''c''],
     permutations := Some (Map.empty(''b'' \<mapsto> [0, 1], ''c'' \<mapsto> [1, 0], ''a'' \<mapsto> [1, 0]))\<rparr>"
  have a: "add_loop inst_full 0 [''a''] = Inr (m1, 1)"
    by (simp add: s g n Let_def generatePermutationsForNode_frame m1_def)
  have nm: "nodes m1 = [''a'', ''b'', ''c'']" "unat (numPartitions m1) = 2"
    by (simp_all add: m1_def n)
  have h: "unat (numPartitions m1) < length (nodes m1)" "numPartitions m1 \<noteq> 0"
    by (simp_all add: m1_def n)
  have "perm_of m1 ''a'' = [1, 0]" "perm_of m1 ''b'' = [0, 1]" "perm_of m1 ''c'' = [1, 0]"
    by (simp_all add: perm_of_def m1_def)
  then have po: "perms_ok m1"
    by (simp add: perms_ok_def perm_ok_def m1_def n)
  have lt: "''a'' < ''d''" "''b'' < ''d''" "''c'' < ''d''" by code_simp+
  then have d: "\<forall>y \<in> set (nodes m1). y < ''d''" by (simp add: nm)
  from C4_add_panics_over_capacity [OF a h(1) po h(2) d, of "[]"] a nm po inst_full_built
  show ?thesis by auto
qed

text \<open>
  C5 at a failing input. On the three-node instance \<open>Contains\<close> answers for \<open>b\<close> and
  for the absent \<open>ab\<close>, but for the absent \<open>d\<close>, which sorts after every member, it
  panics with an index out of range instead of returning false. (Where some member is
  not smaller than the probed identifier, \<open>Contains\<close> is the membership test: lemma
  \<open>Contains_in_range\<close>.)
\<close>

theorem C5_contains_panics:
  "nodes inst_abc = [''a'', ''b'', ''c''] \<and> ''d'' \<notin> set (nodes inst_abc)
   \<and> Contains inst_abc ''d'' = Inl IndexOutOfRange
   \<and> Contains inst_abc ''b'' = Inr True \<and> Contains inst_abc ''ab'' = Inr False"
  by code_simp

text \<open>
  Witness for C5's theorem.
\<close>

theorem C5_contains_panics_witness:
  "Contains inst_abc ''d'' = Inl IndexOutOfRange \<and> Contains inst_abc ''b'' = Inr True"
  using C5_contains_panics by blast



text \<open>
  C7, as amended. For every instance with a sorted node list of fewer than
  \<open>numPartitions\<close> nodes (the count a prime up to \<open>2^32\<close>, the cached permutations
  permutations) and every identifier \<open>x\<close> that is not a member and sorts before some
  member, \<open>Add(x)\<close> returns count 1 and no error, and a second \<open>Add(x)\<close> returns count 0
  and no error and leaves the instance, its table included, as the first call left it.
\<close>

theorem C7_add_twice:
  assumes srt: "sorted (nodes m)" and po: "perms_ok m"
    and pr: "is_prime (unat (numPartitions m))" and small: "unat (numPartitions m) \<le> 2 ^ 32"
    and new: "x \<notin> set (nodes m)" and before: "\<exists>y \<in> set (nodes m). x < y"
    and room: "length (nodes m) < unat (numPartitions m)"
  shows "\<exists>m1. Add m [x] = Some (Inr (m1, 1, None))
           \<and> Add m1 [x] = Some (Inr (m1, 0, None))
           \<and> x \<in> set (nodes m1) \<and> length (nodes m1) = length (nodes m) + 1"
proof -
  let ?pos = "SearchStrings (nodes m) x"
  have p0: "numPartitions m \<noteq> 0" using pr by (auto simp: is_prime_def)
  have pl: "?pos < length (nodes m)"
  proof (rule ccontr)
    assume "\<not> ?pos < length (nodes m)"
    then have "?pos = length (nodes m)" using SearchStrings_le [of "nodes m" x] by simp
    then have "\<forall>k < length (nodes m). nodes m ! k < x"
      using SearchStrings_less [OF srt] by simp
    then have "\<forall>y \<in> set (nodes m). y < x" by (auto simp: in_set_conv_nth)
    with before show False by (meson less_asym)
  qed
  have ne: "nodes m ! ?pos \<noteq> x" using new pl by (metis nth_mem)
  obtain perm where perm: "generatePermutationsForNode m x = Inr perm"
    using generatePermutationsForNode_ok [OF pr small, of x] by blast
  have "nodes m ! ?pos \<in> set (nodes m)" using pl by simp
  then have "perm_ok (unat (numPartitions m)) (perm_of m (nodes m ! ?pos))"
    using po by (simp add: perms_ok_def)
  moreover have "0 < unat (numPartitions m)" using p0 by (simp add: unat_gt_0)
  ultimately have "perm_of m (nodes m ! ?pos) \<noteq> []"
    by (auto simp: perm_ok_def)
  then obtain pm where pm: "permutations m = Some pm"
    by (cases "permutations m") (simp_all add: perm_of_def)
  define m' where "m' = m\<lparr>nodes := take ?pos (nodes m) @ [x] @ drop ?pos (nodes m),
                        permutations := Some (pm(x \<mapsto> perm))\<rparr>"
  have a1: "add_loop m 0 [x] = Inr (m', 1)"
    using pl ne perm pm by (simp add: Let_def generatePermutationsForNode_frame m'_def)
  have po': "perms_ok m'" using add_loop_perms_ok [OF pr small po a1] .
  have np: "numPartitions m' = numPartitions m" by (simp add: m'_def)
  have len: "length (nodes m') = length (nodes m) + 1" using pl by (simp add: m'_def)
  have mem: "x \<in> set (nodes m')" by (simp add: m'_def)
  have ne': "nodes m' \<noteq> []" using mem by auto
  have srt': "sorted (nodes m')" using sorted_insert_at [OF srt, of x] by (simp add: m'_def)
  from populateLookup_counts [OF po' ne'] p0 np
  obtain tab where tab: "populateLookup m' = Some (Inr (m'\<lparr>lookup := tab\<rparr>))" by auto
  define m1 where "m1 = m'\<lparr>lookup := tab\<rparr>"
  have cap: "\<not> unat (numPartitions m1) < length (nodes m1)"
    using room len np by (simp add: m1_def)
  have first: "Add m [x] = Some (Inr (m1, 1, None))"
    using a1 tab cap by (simp add: Add_def m1_def)
  have found: "SearchStrings (nodes m1) x < length (nodes m1)
      \<and> nodes m1 ! SearchStrings (nodes m1) x = x"
    using SearchStrings_found [of "nodes m1" x] srt' mem by (simp add: m1_def)
  then have a2: "add_loop m1 0 [x] = Inr (m1, 0)" by (simp add: Let_def)
  have "populateLookup m1 = Some (Inr m1)"
    using populateLookup_frame [OF tab, of tab] by (simp add: m1_def)
  then have second: "Add m1 [x] = Some (Inr (m1, 0, None))"
    using a2 cap by (simp add: Add_def)
  show ?thesis
    using first second mem len by (intro exI [of _ m1]) (simp add: m1_def)
qed

text \<open>
  Witness for C7: adding \<open>ab\<close> to the three-node instance.
\<close>

theorem C7_add_twice_witness:
  "sorted (nodes inst_abc) \<and> perms_ok inst_abc \<and> is_prime (unat (numPartitions inst_abc))
   \<and> unat (numPartitions inst_abc) \<le> 2 ^ 32 \<and> ''ab'' \<notin> set (nodes inst_abc)
   \<and> ''b'' \<in> set (nodes inst_abc) \<and> ''ab'' < ''b''
   \<and> length (nodes inst_abc) < unat (numPartitions inst_abc)
   \<and> (\<exists>m1. Add inst_abc [''ab''] = Some (Inr (m1, 1, None))
          \<and> Add m1 [''ab''] = Some (Inr (m1, 0, None))
          \<and> lookup m1 = [''b'', ''c'', ''b'', ''ab'', ''a'', ''ab'', ''a''])"
proof -
  have u: "unat (numPartitions inst_abc) = 7" "nodes inst_abc = [''a'', ''b'', ''c'']"
    by (simp_all add: inst_abc_def)
  have p7: "is_prime 7" by code_simp
  have h: "sorted (nodes inst_abc)" "perms_ok inst_abc" "is_prime (unat (numPartitions inst_abc))"
    "unat (numPartitions inst_abc) \<le> 2 ^ 32" "''ab'' \<notin> set (nodes inst_abc)"
    "''b'' \<in> set (nodes inst_abc)" "''ab'' < ''b''"
    "length (nodes inst_abc) < unat (numPartitions inst_abc)"
    using p7 inst_abc_ok(4) by (simp_all add: u)
  have ex: "\<exists>y \<in> set (nodes inst_abc). ''ab'' < y" using h(6,7) by blast
  from C7_add_twice [OF h(1,2,3,4,5) ex h(8)]
  obtain m1 where m1: "Add inst_abc [''ab''] = Some (Inr (m1, 1, None))"
    "Add m1 [''ab''] = Some (Inr (m1, 0, None))" by blast
  have "map_option (map_sum id (\<lambda>(m, n, e). lookup m)) (Add inst_abc [''ab''])
      = Some (Inr [''b'', ''c'', ''b'', ''ab'', ''a'', ''ab'', ''a''])"
    by code_simp
  then have "lookup m1 = [''b'', ''c'', ''b'', ''ab'', ''a'', ''ab'', ''a'']"
    using m1(1) by simp
  then show ?thesis using h m1 by blast
qed

text \<open>
  C7 as stated fails on an instance that already holds \<open>numPartitions\<close> nodes: the
  first \<open>Add\<close> of a new identifier returns count 1 together with the capacity error.
\<close>

theorem C7_counterexample:
  "NewMaglev [''b'', ''c''] 2 hash_sum hash_mix = Some (Inr (Inr inst_full))
   \<and> nodes inst_full \<noteq> [] \<and> ''a'' \<notin> set (nodes inst_full)
   \<and> map_option (map_sum id (\<lambda>(m, n, e). (n, e))) (Add inst_full [''a''])
        = Some (Inr (1, Some CapacityExceeded))"
proof -
  have "nodes inst_full \<noteq> []" "''a'' \<notin> set (nodes inst_full)"
    "map_option (map_sum id (\<lambda>(m, n, e). (n, e))) (Add inst_full [''a''])
        = Some (Inr (1, Some CapacityExceeded))"
    by code_simp+
  then show ?thesis using inst_full_built by simp
qed

text \<open>
  C8 at a failing input. \<open>NewMaglev\<close> accepts the prime \<open>9322451228656926721\<close>, which
  is above \<open>2^63\<close>, with an empty node list; for the key \<open>2^63\<close> the remainder is
  \<open>2^63\<close> itself and its conversion to the 64-bit \<open>int\<close> is negative. (For partition
  counts up to \<open>2^63\<close> the result is \<open>key mod numPartitions\<close>: lemma
  \<open>PartitionID_in_range\<close>.)
\<close>

theorem C8_negative_for_huge_prime:
  "NewMaglev [] 9322451228656926721 hash_sum hash_mix = Some (Inr (Inr inst_huge))
   \<and> PartitionID inst_huge 9223372036854775808 = Inr (- 9223372036854775808)"
proof -
  have "unat (9322451228656926721 :: u64) = 9322451228656926721" by simp
  then have "NewMaglev [] 9322451228656926721 hash_sum hash_mix = Some (Inr (Inr inst_huge))"
    using prime_9322451228656926721 by (simp add: NewMaglev_def inst_huge_def)
  moreover have "PartitionID inst_huge 9223372036854775808 = Inr (- 9223372036854775808)"
    by (simp add: PartitionID_def inst_huge_def)
  ultimately show ?thesis by simp
qed

text \<open>
  Witness for C8's theorem.
\<close>

theorem C8_negative_for_huge_prime_witness:
  "PartitionID inst_huge 9223372036854775808 = Inr (- 9223372036854775808)"
  using C8_negative_for_huge_prime by blast

text \<open>
  C9. The membership probe indexes \<open>nodes[pos]\<close> without a bounds check. For a node
  identifier that sorts strictly after every current member (on an instance without nodes:
  for every identifier) the search returns the slice length, so \<open>Contains\<close> panics with
  an index out of range instead of returning false, \<open>Add\<close> panics instead of inserting the
  candidate at the end, and \<open>Remove\<close> panics instead of reporting it absent.
\<close>

theorem C9_probe_past_end:
  assumes "\<forall>y \<in> set (nodes m). y < x"
  shows "Contains m x = Inl IndexOutOfRange
         \<and> Add m (x # rest) = Some (Inl IndexOutOfRange)
         \<and> Remove m (x # rest) = Some (Inl IndexOutOfRange)"
proof -
  have pos: "SearchStrings (nodes m) x = length (nodes m)"
    using assms by (rule SearchStrings_after_all)
  have "Contains m x = Inl IndexOutOfRange" using pos by (simp add: Contains_def)
  moreover have "add_loop m 0 (x # rest) = Inl IndexOutOfRange" using pos by simp
  then have "Add m (x # rest) = Some (Inl IndexOutOfRange)" by (simp add: Add_def)
  moreover have "remove_loop m 0 (x # rest) = Inl IndexOutOfRange" using pos by simp
  then have "Remove m (x # rest) = Some (Inl IndexOutOfRange)" by (simp add: Remove_def)
  ultimately show ?thesis by simp
qed

text \<open>
  Witness for C9: probing \<open>d\<close> on the three-node instance.
\<close>

theorem C9_probe_past_end_witness:
  "nodes inst_abc = [''a'', ''b'', ''c''] \<and> ''a'' < ''d'' \<and> ''b'' < ''d'' \<and> ''c'' < ''d''
   \<and> Contains inst_abc ''d'' = Inl IndexOutOfRange
   \<and> Add inst_abc [''d'', ''e''] = Some (Inl IndexOutOfRange)
   \<and> Remove inst_abc [''d'', ''e''] = Some (Inl IndexOutOfRange)"
proof -
  have n: "nodes inst_abc = [''a'', ''b'', ''c'']" by (simp add: inst_abc_def)
  have lt: "''a'' < ''d''" "''b'' < ''d''" "''c'' < ''d''" by simp_all
  have "\<forall>y \<in> set (nodes inst_abc). y < ''d''" using lt by (simp add: n)
  from C9_probe_past_end [OF this, of "[''e'']"] n lt show ?thesis by simp
qed

text \<open>
  C10. The builder tests \<open>lookup[c] != ""\<close> to see whether a slot is filled. A turn of
  the node \<open>""\<close> therefore leaves the table as it was while the fill counter advances.
  On the instance built from \<open>""\<close> and \<open>c\<close> over three partitions the three turns are:
  \<open>""\<close> takes slot 0, \<open>c\<close> takes slot 0 again, \<open>""\<close> takes slot 1; the counter then
  equals \<open>numPartitions\<close>, slot 2 was never written, and \<open>Lookup\<close> returns \<open>""\<close> for
  partitions 1 and 2 although the node list is not empty.
\<close>

theorem C10_empty_string_sentinel:
  "(\<forall>m i s s'. turn m i [] s = Inr s' \<longrightarrow> table s' = table s \<and> filled s' = filled s + 1)
   \<and> NewMaglev ['''', ''c''] 3 hash_sum hash_mix = Some (Inr (Inr inst_blank))
   \<and> [] \<in> set (nodes inst_blank)
   \<and> turn inst_blank 0 [] \<lparr>table = [[], [], []], nxt = [0, 0], filled = 0\<rparr>
        = Inr \<lparr>table = [[], [], []], nxt = [1, 0], filled = 1\<rparr>
   \<and> turn inst_blank 1 ''c'' \<lparr>table = [[], [], []], nxt = [1, 0], filled = 1\<rparr>
        = Inr \<lparr>table = [''c'', [], []], nxt = [1, 1], filled = 2\<rparr>
   \<and> turn inst_blank 0 [] \<lparr>table = [''c'', [], []], nxt = [1, 1], filled = 2\<rparr>
        = Inr \<lparr>table = [''c'', [], []], nxt = [2, 1], filled = 3\<rparr>
   \<and> numPartitions inst_blank = 3
   \<and> populateLookup inst_blank = Some (Inr inst_blank)
   \<and> lookup inst_blank = [''c'', [], []]
   \<and> Lookup inst_blank 1 = Inr [] \<and> Lookup inst_blank 2 = Inr []"
proof -
  have gen: "\<forall>m i s s'. turn m i [] s = Inr s' \<longrightarrow> table s' = table s \<and> filled s' = filled s + 1"
    using turn_blank by blast
  have t1: "turn inst_blank 0 [] \<lparr>table = [[], [], []], nxt = [0, 0], filled = 0\<rparr>
        = Inr \<lparr>table = [[], [], []], nxt = [1, 0], filled = 1\<rparr>"
    by code_simp
  have t2: "turn inst_blank 1 ''c'' \<lparr>table = [[], [], []], nxt = [1, 0], filled = 1\<rparr>
        = Inr \<lparr>table = [''c'', [], []], nxt = [1, 1], filled = 2\<rparr>"
    by code_simp
  have t3: "turn inst_blank 0 [] \<lparr>table = [''c'', [], []], nxt = [1, 1], filled = 2\<rparr>
        = Inr \<lparr>table = [''c'', [], []], nxt = [2, 1], filled = 3\<rparr>"
    by code_simp
  have "map_option (map_sum id lookup) (populateLookup inst_blank) = Some (Inr (lookup inst_blank))"
    by code_simp
  then have "populateLookup inst_blank = Some (Inr (inst_blank\<lparr>lookup := lookup inst_blank\<rparr>))"
    by (rule populateLookup_eval)
  then have pl: "populateLookup inst_blank = Some (Inr inst_blank)" by simp
  have rest: "[] \<in> set (nodes inst_blank)" "numPartitions inst_blank = 3"
    "lookup inst_blank = [''c'', [], []]"
    by (simp_all add: inst_blank_def)
  have lk: "Lookup inst_blank 1 = Inr []" "Lookup inst_blank 2 = Inr []" by code_simp+
  show ?thesis using gen inst_blank_built t1 t2 t3 pl rest lk by blast
qed

text \<open>
  Witness for C10: the first turn of \<open>""\<close>.
\<close>

theorem C10_empty_string_sentinel_witness:
  "turn inst_blank 0 [] \<lparr>table = [[], [], []], nxt = [0, 0], filled = 0\<rparr>
        = Inr \<lparr>table = [[], [], []], nxt = [1, 0], filled = 1\<rparr>
   \<and> table \<lparr>table = [[], [], []], nxt = [1, 0], filled = 1\<rparr>
        = table \<lparr>table = [[], [], []], nxt = [0, 0], filled = (0 :: u64)\<rparr>
   \<and> Lookup inst_blank 2 = Inr []"
proof -
  note c = C10_empty_string_sentinel
  have t: "turn inst_blank 0 [] \<lparr>table = [[], [], []], nxt = [0, 0], filled = 0\<rparr>
        = Inr \<lparr>table = [[], [], []], nxt = [1, 0], filled = 1\<rparr>"
    using c by blast
  have "\<forall>m i s s'. turn m i [] s = Inr s' \<longrightarrow> table s' = table s \<and> filled s' = filled s + 1"
    using c by blast
  then have "table \<lparr>table = [[], [], []], nxt = [1, 0], filled = 1\<rparr>
        = table \<lparr>table = [[], [], []], nxt = [0, 0], filled = (0 :: u64)\<rparr>"
    using t by blast
  moreover have "Lookup inst_blank 2 = Inr []" using c by blast
  ultimately show ?thesis using t by blast
qed

end
